theory Spec2Isabelle
  imports Main "HOL-Library.Word"
begin

unbundle bit_operations_syntax

section \<open>Data model\<close>

type_synonym u8 = "8 word"
type_synonym u16 = "16 word"
type_synonym u32 = "32 word"

text \<open>
  A C pointer as the driver uses it: it is only ever compared with \<open>NULL\<close> and
  indexed.  \<open>mmap\<close> reports failure with \<open>MAP_FAILED\<close>, that is \<open>(void *) -1\<close>,
  which is not \<open>NULL\<close>.  \<open>Mapped base\<close> is a window onto the physical registers that
  start at the physical address \<open>base\<close>.
\<close>

datatype ptr = NULL | MAP_FAILED | Mapped u32

text \<open>
  \<open>enum gpio_state\<close> of pi2cslave.h.  A C enum is an integer: \<open>GPIO_STATE_INVALID v\<close>
  stands for any value \<open>v\<close> other than the three enumerators, which the \<open>switch\<close> of
  \<open>bcm_set_gpio_out\<close> sends to its \<open>default\<close> branch.
\<close>

datatype gpio_state =
  GPIO_STATE_FLOAT | GPIO_STATE_LOW | GPIO_STATE_HIGH | GPIO_STATE_INVALID int

text \<open>
  What a run does to the outside: volatile register loads and stores (window base, word
  index, value), calls of the transmit callback, sleeps, diagnostics on stderr (the text
  written, without its final newline) and the system calls that release resources.
\<close>

datatype event =
    RegRead u32 nat u32
  | RegWrite u32 nat u32
  | Callback u16 "u8 option"
  | Usleep nat
  | Stderr string
  | SysClose int
  | SysMunmap ptr nat

text \<open>
  The ways a call ends without returning to its caller: an access through a pointer that
  is not a mapping, a pending cancellation taken at a cancellation point, a store behind
  the end of the caller's buffer, and the overflow of a signed \<open>int\<close>, which is undefined
  behaviour in C.
\<close>

datatype fault = SegFault | ThreadCancelled | BufferOverrun | SignedOverflow

text \<open>
  The operating system and the peripheral are a parameter: \<open>'w\<close> is the state of the
  world outside the process, and the fields say how it answers.  A register load may
  change the world (reading the data register pops the receive FIFO).
\<close>

record 'w env =
  sys_open :: "'w \<Rightarrow> int \<times> 'w"
  sys_mmap :: "nat \<Rightarrow> int \<Rightarrow> u32 \<Rightarrow> 'w \<Rightarrow> ptr \<times> 'w"
  reg_read :: "u32 \<Rightarrow> nat \<Rightarrow> 'w \<Rightarrow> u32 \<times> 'w"
  reg_write :: "u32 \<Rightarrow> nat \<Rightarrow> u32 \<Rightarrow> 'w \<Rightarrow> 'w"
  sys_usleep :: "nat \<Rightarrow> 'w \<Rightarrow> 'w"
  cancel_pending :: "'w \<Rightarrow> bool"

text \<open>The three file-scope variables of pi2cslave.c, the world, and the events so far.\<close>

record 'w machine =
  mem_fd :: int
  bsc :: ptr
  gpio_reg :: ptr
  world :: 'w
  trace :: "event list"

type_synonym ('w, 'a) prog = "'w machine \<Rightarrow> (fault + 'a) \<times> 'w machine"

subsection \<open>Constants of pi2cslave.h\<close>

abbreviation (input) BCM_IO_BASE :: u32 where "BCM_IO_BASE \<equiv> 0x3F000000"
abbreviation (input) GPIO_BASE :: u32 where "GPIO_BASE \<equiv> BCM_IO_BASE + 0x200000"
abbreviation (input) GPIO_LEN :: nat where "GPIO_LEN \<equiv> 0xF4"
abbreviation (input) BSC_BASE :: u32 where "BSC_BASE \<equiv> BCM_IO_BASE + 0x214000"
abbreviation (input) BSC_LEN :: nat where "BSC_LEN \<equiv> 0x40"

abbreviation (input) GPIO_COUNT :: int where "GPIO_COUNT \<equiv> 28"
abbreviation (input) GPSET0 :: nat where "GPSET0 \<equiv> 0x1C"
abbreviation (input) GPCLR0 :: nat where "GPCLR0 \<equiv> 0x28"

abbreviation (input) GPIO_FUN_IN :: u32 where "GPIO_FUN_IN \<equiv> 0"
abbreviation (input) GPIO_FUN_OUT :: u32 where "GPIO_FUN_OUT \<equiv> 1"
abbreviation (input) GPIO_FUN_ALT3 :: u32 where "GPIO_FUN_ALT3 \<equiv> 7"
abbreviation (input) GPIO_FUN_MASK :: u32 where "GPIO_FUN_MASK \<equiv> 7"
abbreviation (input) GPIO_FUN_SHIFT :: nat where "GPIO_FUN_SHIFT \<equiv> 3"
abbreviation (input) GPIO_FUN_PER_REG :: u32 where "GPIO_FUN_PER_REG \<equiv> 10"

abbreviation (input) GPIO_SDA :: u32 where "GPIO_SDA \<equiv> 18"
abbreviation (input) GPIO_SCL :: u32 where "GPIO_SCL \<equiv> 19"

abbreviation (input) BSC_DR :: nat where "BSC_DR \<equiv> 0"
abbreviation (input) BSC_RSR :: nat where "BSC_RSR \<equiv> 1"
abbreviation (input) BSC_SLV :: nat where "BSC_SLV \<equiv> 2"
abbreviation (input) BSC_CR :: nat where "BSC_CR \<equiv> 3"
abbreviation (input) BSC_FR :: nat where "BSC_FR \<equiv> 4"
abbreviation (input) BSC_IMSC :: nat where "BSC_IMSC \<equiv> 6"
abbreviation (input) BSC_ICR :: nat where "BSC_ICR \<equiv> 9"

text \<open>\<open>CR_RXE = 1<<9\<close>, \<open>CR_TXE = 1<<8\<close>, \<open>CR_BRK = 1<<7\<close>, \<open>CR_I2C = 1<<2\<close>, \<open>CR_EN = 1<<0\<close>.\<close>

abbreviation (input) CR_RXE :: u32 where "CR_RXE \<equiv> 0x200"
abbreviation (input) CR_TXE :: u32 where "CR_TXE \<equiv> 0x100"
abbreviation (input) CR_BRK :: u32 where "CR_BRK \<equiv> 0x80"
abbreviation (input) CR_I2C :: u32 where "CR_I2C \<equiv> 0x4"
abbreviation (input) CR_EN :: u32 where "CR_EN \<equiv> 0x1"

text \<open>
  \<open>FR_TXFLEVEL = 0x1F<<6\<close>, \<open>FR_RXBUSY = 1<<5\<close>, \<open>FR_TXFE = 1<<4\<close>, \<open>FR_TXFF = 1<<2\<close>,
  \<open>FR_RXFE = 1<<1\<close>; \<open>RSR_UE = 1<<1\<close>, \<open>RSR_OE = 1<<0\<close>.
\<close>

abbreviation (input) FR_TXFLEVEL_OFF :: nat where "FR_TXFLEVEL_OFF \<equiv> 6"
abbreviation (input) FR_TXFLEVEL :: u32 where "FR_TXFLEVEL \<equiv> 0x7C0"
abbreviation (input) FR_RXBUSY :: u32 where "FR_RXBUSY \<equiv> 0x20"
abbreviation (input) FR_TXFE :: u32 where "FR_TXFE \<equiv> 0x10"
abbreviation (input) FR_TXFF :: u32 where "FR_TXFF \<equiv> 0x4"
abbreviation (input) FR_RXFE :: u32 where "FR_RXFE \<equiv> 0x2"

abbreviation (input) RSR_UE :: u32 where "RSR_UE \<equiv> 0x2"
abbreviation (input) RSR_OE :: u32 where "RSR_OE \<equiv> 0x1"

abbreviation (input) WRITE_USLEEP_INTERVAL :: nat where "WRITE_USLEEP_INTERVAL \<equiv> 25"

section \<open>Primitive steps\<close>

definition ret :: "'a \<Rightarrow> ('w, 'a) prog" where
  "ret v s = (Inr v, s)"

text \<open>Sequencing: a fault ends the run where it happens.\<close>

definition then_do :: "('w, 'a) prog \<Rightarrow> ('a \<Rightarrow> ('w, 'b) prog) \<Rightarrow> ('w, 'b) prog" where
  "then_do m f s = (case m s of (Inl e, s') \<Rightarrow> (Inl e, s') | (Inr v, s') \<Rightarrow> f v s')"

definition emit :: "event \<Rightarrow> ('w, unit) prog" where
  "emit ev s = (Inr (), s\<lparr>trace := trace s @ [ev]\<rparr>)"

text \<open>\<open>p[i]\<close> read and \<open>p[i] = v\<close> for a \<open>volatile uint32_t *p\<close>.\<close>

definition load :: "'w env \<Rightarrow> ptr \<Rightarrow> nat \<Rightarrow> ('w, u32) prog" where
  "load E p i s =
     (case p of
        Mapped base \<Rightarrow>
          (let (v, w) = reg_read E base i (world s)
           in (Inr v, s\<lparr>world := w, trace := trace s @ [RegRead base i v]\<rparr>))
      | _ \<Rightarrow> (Inl SegFault, s))"

definition store :: "'w env \<Rightarrow> ptr \<Rightarrow> nat \<Rightarrow> u32 \<Rightarrow> ('w, unit) prog" where
  "store E p i v s =
     (case p of
        Mapped base \<Rightarrow>
          (Inr (), s\<lparr>world := reg_write E base i v (world s),
                     trace := trace s @ [RegWrite base i v]\<rparr>)
      | _ \<Rightarrow> (Inl SegFault, s))"

definition bsc_rd :: "'w env \<Rightarrow> nat \<Rightarrow> ('w, u32) prog" where
  "bsc_rd E i s = load E (bsc s) i s"

definition bsc_wr :: "'w env \<Rightarrow> nat \<Rightarrow> u32 \<Rightarrow> ('w, unit) prog" where
  "bsc_wr E i v s = store E (bsc s) i v s"

definition gpio_rd :: "'w env \<Rightarrow> nat \<Rightarrow> ('w, u32) prog" where
  "gpio_rd E i s = load E (gpio_reg s) i s"

definition gpio_wr :: "'w env \<Rightarrow> nat \<Rightarrow> u32 \<Rightarrow> ('w, unit) prog" where
  "gpio_wr E i v s = store E (gpio_reg s) i v s"

text \<open>\<open>pthread_testcancel()\<close>: the thread ends here when a cancellation is pending.\<close>

definition testcancel :: "'w env \<Rightarrow> ('w, unit) prog" where
  "testcancel E s = (if cancel_pending E (world s) then (Inl ThreadCancelled, s) else (Inr (), s))"

text \<open>
  \<open>usleep(n)\<close> is a cancellation point too: the thread ends in it when a cancellation
  is pending on entry or arrives while it sleeps.
\<close>

definition usleep :: "'w env \<Rightarrow> nat \<Rightarrow> ('w, unit) prog" where
  "usleep E n s =
     (if cancel_pending E (world s) then (Inl ThreadCancelled, s)
      else
        (let s' = s\<lparr>world := sys_usleep E n (world s), trace := trace s @ [Usleep n]\<rparr>
         in if cancel_pending E (world s') then (Inl ThreadCancelled, s') else (Inr (), s')))"

text \<open>What \<open>%d\<close> prints for a C \<open>int\<close>.\<close>

fun decimal :: "nat \<Rightarrow> string" where
  "decimal n =
     (if n < 10 then [''0123456789'' ! n]
      else decimal (n div 10) @ [''0123456789'' ! (n mod 10)])"

declare decimal.simps [simp del]

definition show_int :: "int \<Rightarrow> string" where
  "show_int i = (if i < 0 then CHR ''-'' # decimal (nat (- i)) else decimal (nat i))"

section \<open>Mapping the registers\<close>

text \<open>\<open>do_mmap(len, base)\<close>: \<open>mmap\<close> on the file descriptor in \<open>mem_fd\<close>.\<close>

definition do_mmap :: "'w env \<Rightarrow> nat \<Rightarrow> u32 \<Rightarrow> ('w, ptr) prog" where
  "do_mmap E len base s =
     (let (p, w) = sys_mmap E len (mem_fd s) base (world s) in (Inr p, s\<lparr>world := w\<rparr>))"

text \<open>
  \<open>init_bcm_reg_mem\<close>, lines 36 to 59.  Both tests after the two mappings compare
  \<open>bsc\<close> with \<open>NULL\<close>, as the source does.
\<close>

definition init_bcm_reg_mem :: "'w env \<Rightarrow> ('w, bool) prog" where
  "init_bcm_reg_mem E s =
     (let (fd, w) = sys_open E (world s);
          s1 = s\<lparr>mem_fd := fd, world := w\<rparr>
      in if fd < 0 then
           then_do (emit (Stderr ''pi2cslave: Unable to open /dev/mem'')) (\<lambda>_. ret False) s1
         else
           then_do (do_mmap E BSC_LEN BSC_BASE) (\<lambda>p s2.
             (let s3 = s2\<lparr>bsc := p\<rparr>
              in if bsc s3 = NULL then
                   then_do (emit (Stderr ''pi2cslave: Unable to mmap BSC memory'')) (\<lambda>_.
                   then_do (emit (SysClose (mem_fd s3))) (\<lambda>_. ret False)) s3
                 else
                   then_do (do_mmap E GPIO_LEN GPIO_BASE) (\<lambda>q s4.
                     (let s5 = s4\<lparr>gpio_reg := q\<rparr>
                      in if bsc s5 = NULL then
                           then_do (emit (Stderr ''pi2cslave: Unable to mmap GPIO memory'')) (\<lambda>_.
                           then_do (emit (SysMunmap (bsc s5) BSC_LEN)) (\<lambda>_.
                           then_do (emit (SysClose (mem_fd s5))) (\<lambda>_. ret False))) s5
                         else ret True s5)) s3)) s1)"

section \<open>GPIO\<close>

text \<open>
  \<open>gpio_set_mode\<close>, lines 77 to 84: two read-modify-write accesses of the function-select
  register \<open>gpio / 10\<close>.  There is no test of \<open>gpio\<close> here.
\<close>

definition gpio_set_mode :: "'w env \<Rightarrow> u32 \<Rightarrow> u32 \<Rightarrow> ('w, unit) prog" where
  "gpio_set_mode E gpio mode =
     (let reg = unat (gpio div GPIO_FUN_PER_REG);
          shift = unat (gpio mod GPIO_FUN_PER_REG) * GPIO_FUN_SHIFT
      in then_do (gpio_rd E reg) (\<lambda>v.
         then_do (gpio_wr E reg (v AND NOT (push_bit shift GPIO_FUN_MASK))) (\<lambda>_.
         then_do (gpio_rd E reg) (\<lambda>v'.
         gpio_wr E reg (v' OR push_bit shift mode)))))"

text \<open>
  \<open>bcm_set_gpio_out\<close>, lines 109 to 138; \<open>gpio\<close> is a C \<open>int\<close>.  \<open>GPCLR0\<close> and
  \<open>GPSET0\<close> index the word array with the header's values as they are.
\<close>

definition bcm_set_gpio_out :: "'w env \<Rightarrow> int \<Rightarrow> gpio_state \<Rightarrow> ('w, bool) prog" where
  "bcm_set_gpio_out E gpio state s =
     (if gpio_reg s = NULL then
        then_do (emit (Stderr ''pi2cslave: init_bcm_reg_mem() has not been called'')) (\<lambda>_.
        ret False) s
      else if gpio < 0 \<or> gpio \<ge> GPIO_COUNT then
        then_do (emit (Stderr (''pi2cslave: Invalid GPIO: '' @ show_int gpio))) (\<lambda>_.
        ret False) s
      else
        (case state of
           GPIO_STATE_FLOAT \<Rightarrow>
             then_do (gpio_set_mode E (word_of_int gpio) GPIO_FUN_IN) (\<lambda>_. ret True) s
         | GPIO_STATE_LOW \<Rightarrow>
             then_do (gpio_rd E GPCLR0) (\<lambda>v.
             then_do (gpio_wr E GPCLR0 (v OR push_bit (nat gpio) 1)) (\<lambda>_.
             then_do (gpio_set_mode E (word_of_int gpio) GPIO_FUN_OUT) (\<lambda>_. ret True))) s
         | GPIO_STATE_HIGH \<Rightarrow>
             then_do (gpio_rd E GPSET0) (\<lambda>v.
             then_do (gpio_wr E GPSET0 (v OR push_bit (nat gpio) 1)) (\<lambda>_.
             then_do (gpio_set_mode E (word_of_int gpio) GPIO_FUN_OUT) (\<lambda>_. ret True))) s
         | GPIO_STATE_INVALID v \<Rightarrow>
             then_do (emit (Stderr (''pi2cslave: Invalid GPIO state: '' @ show_int v))) (\<lambda>_.
             ret False) s))"

section \<open>The slave engine\<close>

text \<open>\<open>init_bsc_i2c_slv\<close>, lines 86 to 107.\<close>

definition init_bsc_i2c_slv :: "'w env \<Rightarrow> u8 \<Rightarrow> ('w, bool) prog" where
  "init_bsc_i2c_slv E i2c_addr s =
     (if bsc s = NULL then
        then_do (emit (Stderr ''pi2cslave: init_bcm_reg_mem() has not been called'')) (\<lambda>_.
        ret False) s
      else
        then_do (gpio_set_mode E GPIO_SDA GPIO_FUN_ALT3) (\<lambda>_.
        then_do (gpio_set_mode E GPIO_SCL GPIO_FUN_ALT3) (\<lambda>_.
        then_do (bsc_wr E BSC_CR CR_BRK) (\<lambda>_.
        then_do (bsc_wr E BSC_RSR 0) (\<lambda>_.
        then_do (bsc_wr E BSC_IMSC 0xf) (\<lambda>_.
        then_do (bsc_wr E BSC_ICR 0xf) (\<lambda>_.
        then_do (bsc_wr E BSC_SLV (ucast (drop_bit 1 i2c_addr))) (\<lambda>_.
        then_do (bsc_wr E BSC_CR (CR_TXE OR CR_RXE OR CR_I2C OR CR_EN)) (\<lambda>_.
        ret True)))))))) s)"

text \<open>\<open>shutdown_bsc_i2c_slv\<close>, lines 140 to 143, and \<open>bsc_i2c_receiving\<close>, 145 to 147.\<close>

definition shutdown_bsc_i2c_slv :: "'w env \<Rightarrow> ('w, unit) prog" where
  "shutdown_bsc_i2c_slv E = bsc_wr E BSC_CR 0"

definition bsc_i2c_receiving :: "'w env \<Rightarrow> ('w, bool) prog" where
  "bsc_i2c_receiving E = then_do (bsc_rd E BSC_FR) (\<lambda>v. ret (v AND FR_RXBUSY \<noteq> 0))"

text \<open>
  One pass of the loop body of \<open>bsc_i2c_read_poll\<close>, lines 163 to 170: the overrun test
  with its read-modify-write of the status register, then the pop of the data register
  into \<open>buf[read]\<close>.  The caller's buffer is the list \<open>buf\<close>; a store behind its end is
  a fault.
\<close>

definition read_byte :: "'w env \<Rightarrow> u8 list \<Rightarrow> nat \<Rightarrow> ('w, u8 list) prog" where
  "read_byte E buf read =
     then_do (testcancel E) (\<lambda>_.
     then_do (bsc_rd E BSC_RSR) (\<lambda>v.
     then_do (if v AND RSR_OE \<noteq> 0 then
                then_do (emit (Stderr ''pi2cslave: Overflow!'')) (\<lambda>_.
                then_do (bsc_rd E BSC_RSR) (\<lambda>v'.
                bsc_wr E BSC_RSR (v' AND NOT RSR_OE)))
              else ret ()) (\<lambda>_.
     then_do (bsc_rd E BSC_DR) (\<lambda>d s.
       if read < length buf then (Inr (buf[read := ucast (d AND 0xFF)]), s)
       else (Inl BufferOverrun, s)))))"

text \<open>
  The \<open>for\<close> loop of lines 162 to 171.  The first argument is \<open>len\<close>, which the loop
  counts down; with \<open>len = 0\<close> the flag register is not read.
\<close>

fun read_loop :: "'w env \<Rightarrow> nat \<Rightarrow> u8 list \<Rightarrow> nat \<Rightarrow> ('w, nat \<times> u8 list) prog" where
  "read_loop E 0 buf read s = (Inr (read, buf), s)"
| "read_loop E (Suc len) buf read s =
     (case bsc_rd E BSC_FR s of
        (Inl e, s1) \<Rightarrow> (Inl e, s1)
      | (Inr fr, s1) \<Rightarrow>
          if fr AND FR_RXFE \<noteq> 0 then (Inr (read, buf), s1)
          else (case read_byte E buf read s1 of
                  (Inl e, s2) \<Rightarrow> (Inl e, s2)
                | (Inr buf', s2) \<Rightarrow> read_loop E len buf' (read + 1) s2))"

text \<open>
  \<open>bsc_i2c_read_poll\<close>, lines 149 to 174.  \<open>buf\<close> is \<open>None\<close> for a null pointer.  The
  \<open>size_t\<close> count is returned as a C \<open>int\<close>: its low 32 bits, read as two's complement.
\<close>

definition bsc_i2c_read_poll ::
  "'w env \<Rightarrow> u8 list option \<Rightarrow> nat \<Rightarrow> ('w, int \<times> u8 list option) prog" where
  "bsc_i2c_read_poll E buf len =
     then_do (testcancel E) (\<lambda>_.
       if len = 0 \<or> buf = None then ret (0, buf)
       else then_do (read_loop E len (the buf) 0) (\<lambda>(read, buf').
            ret (sint (word_of_nat read :: u32), Some buf')))"

text \<open>
  One pass of the inner loop body of \<open>bsc_i2c_write\<close>, lines 186 to 200: the underrun test,
  then \<open>cb(addr++, &byte)\<close>.  The result says whether the loop goes on (no \<open>break\<close>), with
  the new \<open>addr\<close> and \<open>offset\<close>.  The callback is a function from the address to the
  byte it supplies, if any.  \<open>offset\<close> is a C \<open>int\<close>, kept as its 32 bits;
  \<open>offset++\<close> at \<open>INT_MAX\<close> is a signed overflow, where the run ends in a fault.
\<close>

definition write_byte ::
  "'w env \<Rightarrow> (u16 \<Rightarrow> u8 option) \<Rightarrow> u16 \<Rightarrow> u32 \<Rightarrow> ('w, bool \<times> u16 \<times> u32) prog" where
  "write_byte E cb addr offset =
     then_do (testcancel E) (\<lambda>_.
     then_do (bsc_rd E BSC_RSR) (\<lambda>v.
     then_do (if v AND RSR_UE \<noteq> 0 then
                then_do (emit (Stderr ''pi2cslave: Underrun!'')) (\<lambda>_.
                then_do (bsc_rd E BSC_RSR) (\<lambda>v'.
                bsc_wr E BSC_RSR (v' AND NOT RSR_UE)))
              else ret ()) (\<lambda>_.
     then_do (emit (Callback addr (cb addr))) (\<lambda>_.
       case cb addr of
         Some byte \<Rightarrow>
           then_do (bsc_wr E BSC_DR (ucast byte)) (\<lambda>_ s.
             if offset = 0x7FFFFFFF then (Inl SignedOverflow, s)
             else (Inr (True, addr + 1, offset + 1), s))
       | None \<Rightarrow> ret (False, addr + 1, offset)))))"

text \<open>The inner loop, lines 185 to 201: keep the transmit FIFO full.\<close>

partial_function (option) fill_tx ::
  "'w env \<Rightarrow> (u16 \<Rightarrow> u8 option) \<Rightarrow> u16 \<Rightarrow> u32 \<Rightarrow> 'w machine
     \<Rightarrow> ((fault + u16 \<times> u32) \<times> 'w machine) option" where
  "fill_tx E cb addr offset s =
     (case bsc_rd E BSC_FR s of
        (Inl e, s1) \<Rightarrow> Some (Inl e, s1)
      | (Inr fr, s1) \<Rightarrow>
          if fr AND FR_TXFF = 0 then
            (case write_byte E cb addr offset s1 of
               (Inl e, s2) \<Rightarrow> Some (Inl e, s2)
             | (Inr (go, addr', offset'), s2) \<Rightarrow>
                 if go then fill_tx E cb addr' offset' s2
                 else Some (Inr (addr', offset'), s2))
          else Some (Inr (addr, offset), s1))"

declare fill_tx.simps [code]

text \<open>The outer loop, lines 182 to 203: reply as long as the receive FIFO is empty.\<close>

partial_function (option) reply_loop ::
  "'w env \<Rightarrow> (u16 \<Rightarrow> u8 option) \<Rightarrow> u16 \<Rightarrow> u32 \<Rightarrow> 'w machine
     \<Rightarrow> ((fault + u32) \<times> 'w machine) option" where
  "reply_loop E cb addr offset s =
     (case bsc_rd E BSC_FR s of
        (Inl e, s1) \<Rightarrow> Some (Inl e, s1)
      | (Inr fr, s1) \<Rightarrow>
          if fr AND FR_RXFE \<noteq> 0 then
            (case testcancel E s1 of
               (Inl e, s2) \<Rightarrow> Some (Inl e, s2)
             | (Inr _, s2) \<Rightarrow>
                 (case fill_tx E cb addr offset s2 of
                    None \<Rightarrow> None
                  | Some (Inl e, s3) \<Rightarrow> Some (Inl e, s3)
                  | Some (Inr (addr', offset'), s3) \<Rightarrow>
                      (case usleep E WRITE_USLEEP_INTERVAL s3 of
                         (Inl e, s4) \<Rightarrow> Some (Inl e, s4)
                       | (Inr _, s4) \<Rightarrow> reply_loop E cb addr' offset' s4)))
          else Some (Inr offset, s1))"

declare reply_loop.simps [code]

text \<open>\<open>bsc[BSC_CR] &= ~CR_TXE; bsc[BSC_CR] |= CR_TXE;\<close>\<close>

definition toggle_txe :: "'w env \<Rightarrow> ('w, unit) prog" where
  "toggle_txe E =
     then_do (bsc_rd E BSC_CR) (\<lambda>v.
     then_do (bsc_wr E BSC_CR (v AND NOT CR_TXE)) (\<lambda>_.
     then_do (bsc_rd E BSC_CR) (\<lambda>v'.
     bsc_wr E BSC_CR (v' OR CR_TXE))))"

text \<open>The flush loop, lines 226 to 229.\<close>

partial_function (option) flush_loop ::
  "'w env \<Rightarrow> 'w machine \<Rightarrow> ((fault + unit) \<times> 'w machine) option" where
  "flush_loop E s =
     (case bsc_rd E BSC_FR s of
        (Inl e, s1) \<Rightarrow> Some (Inl e, s1)
      | (Inr fr, s1) \<Rightarrow>
          if fr AND FR_TXFE = 0 then
            (case toggle_txe E s1 of
               (Inl e, s2) \<Rightarrow> Some (Inl e, s2)
             | (Inr _, s2) \<Rightarrow> flush_loop E s2)
          else Some (Inr (), s1))"

declare flush_loop.simps [code]

text \<open>\<open>GET_FR_TXFLEVEL()\<close>, applied to the value read from the flag register.\<close>

definition txflevel :: "u32 \<Rightarrow> u32" where
  "txflevel fr = drop_bit FR_TXFLEVEL_OFF (fr AND FR_TXFLEVEL)"

text \<open>
  Lines 204 to 236 of \<open>bsc_i2c_write\<close>, from the state the outer loop left:
  \<open>ret = offset - GET_FR_TXFLEVEL() - 1\<close> is computed in \<open>unsigned\<close> arithmetic (the level
  is a \<open>uint32_t\<close>) and read back as an \<open>int\<close>; then the flush loop, one more toggle, and
  the clamped result.
\<close>

definition write_finish ::
  "'w env \<Rightarrow> u32 \<Rightarrow> 'w machine \<Rightarrow> ((fault + int) \<times> 'w machine) option" where
  "write_finish E offset s1 =
     (case bsc_rd E BSC_FR s1 of
        (Inl e, s2) \<Rightarrow> Some (Inl e, s2)
      | (Inr fr, s2) \<Rightarrow>
          (let ret = offset - txflevel fr - 1
           in case flush_loop E s2 of
                None \<Rightarrow> None
              | Some (Inl e, s3) \<Rightarrow> Some (Inl e, s3)
              | Some (Inr _, s3) \<Rightarrow>
                  (case toggle_txe E s3 of
                     (Inl e, s4) \<Rightarrow> Some (Inl e, s4)
                   | (Inr _, s4) \<Rightarrow> Some (Inr (if sint ret < 0 then 0 else sint ret), s4))))"

text \<open>
  \<open>bsc_i2c_write\<close>, lines 176 to 236.  \<open>None\<close> is a run that never returns: the loops
  wait on the peripheral.
\<close>

definition bsc_i2c_write ::
  "'w env \<Rightarrow> (u16 \<Rightarrow> u8 option) \<Rightarrow> u16 \<Rightarrow> 'w machine \<Rightarrow> ((fault + int) \<times> 'w machine) option"
  where
  "bsc_i2c_write E cb addr s =
     (case testcancel E s of
        (Inl e, s0) \<Rightarrow> Some (Inl e, s0)
      | (Inr _, s0) \<Rightarrow>
          (case reply_loop E cb addr 0 s0 of
             None \<Rightarrow> None
           | Some (Inl e, s1) \<Rightarrow> Some (Inl e, s1)
           | Some (Inr offset, s1) \<Rightarrow> write_finish E offset s1))"

section \<open>A simulated peripheral\<close>

text \<open>
  Modelled from the spec: the BSC peripheral, its two hardware FIFOs and the bus master are
  hardware, not code of the repository.  The simulation follows sections 3 and 4.3 of the
  specification and the comment at lines 210 to 225 of pi2cslave.c: two FIFOs of depth 16
  seen through the flag register (level fields, empty and full bits); reading the data
  register pops the receive FIFO and writing it pushes onto the transmit FIFO; and each
  time transmit is disabled and enabled again the byte staged for transmission is dropped
  and the next FIFO entry is staged.  The other registers keep the value last written.
  What happens outside the process happens while it sleeps: each \<open>usleep\<close> plays the next
  stimulus of a script.
\<close>

datatype stimulus = MasterReads | MasterWrites u8 | CancelRequest

record sim =
  bsc_mem :: "nat \<Rightarrow> u32"
  gpio_mem :: "nat \<Rightarrow> u32"
  tx_fifo :: "u8 list"
  tx_staged :: "u8 option"
  rx_fifo :: "u8 list"
  on_wire :: "u8 list"
  script :: "stimulus list"
  cancel_req :: bool
  open_ok :: bool
  mmap_ok :: "u32 \<Rightarrow> bool"

abbreviation (input) FIFO_LEN :: nat where "FIFO_LEN \<equiv> 16"

definition sim_fr :: "sim \<Rightarrow> u32" where
  "sim_fr d =
     push_bit 11 (word_of_nat (length (rx_fifo d)) AND 0x1F)
     OR push_bit 6 (word_of_nat (length (tx_fifo d)) AND 0x1F)
     OR (if tx_fifo d = [] then FR_TXFE else 0)
     OR (if FIFO_LEN \<le> length (tx_fifo d) then FR_TXFF else 0)
     OR (if rx_fifo d = [] then FR_RXFE else 0)"

definition sim_read :: "u32 \<Rightarrow> nat \<Rightarrow> sim \<Rightarrow> u32 \<times> sim" where
  "sim_read base i d =
     (if base = BSC_BASE then
        (if i = BSC_DR then
           (case rx_fifo d of [] \<Rightarrow> (0, d) | b # bs \<Rightarrow> (ucast b, d\<lparr>rx_fifo := bs\<rparr>))
         else if i = BSC_FR then (sim_fr d, d)
         else (bsc_mem d i, d))
      else if base = GPIO_BASE then (gpio_mem d i, d)
      else (0, d))"

definition sim_write :: "u32 \<Rightarrow> nat \<Rightarrow> u32 \<Rightarrow> sim \<Rightarrow> sim" where
  "sim_write base i v d =
     (if base = BSC_BASE then
        (if i = BSC_DR then
           (if length (tx_fifo d) < FIFO_LEN then d\<lparr>tx_fifo := tx_fifo d @ [ucast v]\<rparr> else d)
         else if i = BSC_CR then
           (let d' = d\<lparr>bsc_mem := (bsc_mem d)(BSC_CR := v)\<rparr>
            in if bsc_mem d BSC_CR AND CR_TXE = 0 \<and> v AND CR_TXE \<noteq> 0 then
                 (case tx_fifo d of
                    [] \<Rightarrow> d'\<lparr>tx_staged := None\<rparr>
                  | b # bs \<Rightarrow> d'\<lparr>tx_staged := Some b, tx_fifo := bs\<rparr>)
               else d')
         else d\<lparr>bsc_mem := (bsc_mem d)(i := v)\<rparr>)
      else if base = GPIO_BASE then d\<lparr>gpio_mem := (gpio_mem d)(i := v)\<rparr>
      else d)"

definition sim_stimulus :: "stimulus \<Rightarrow> sim \<Rightarrow> sim" where
  "sim_stimulus a d =
     (case a of
        MasterReads \<Rightarrow>
          (case tx_staged d of
             Some b \<Rightarrow> d\<lparr>on_wire := on_wire d @ [b], tx_staged := None\<rparr>
           | None \<Rightarrow>
               (case tx_fifo d of
                  [] \<Rightarrow> d\<lparr>bsc_mem := (bsc_mem d)(BSC_RSR := bsc_mem d BSC_RSR OR RSR_UE)\<rparr>
                | b # bs \<Rightarrow> d\<lparr>on_wire := on_wire d @ [b], tx_fifo := bs\<rparr>))
      | MasterWrites b \<Rightarrow>
          (if length (rx_fifo d) < FIFO_LEN then d\<lparr>rx_fifo := rx_fifo d @ [b]\<rparr>
           else d\<lparr>bsc_mem := (bsc_mem d)(BSC_RSR := bsc_mem d BSC_RSR OR RSR_OE)\<rparr>)
      | CancelRequest \<Rightarrow> d\<lparr>cancel_req := True\<rparr>)"

definition sim_usleep :: "nat \<Rightarrow> sim \<Rightarrow> sim" where
  "sim_usleep n d =
     (case script d of [] \<Rightarrow> d | a # as \<Rightarrow> sim_stimulus a (d\<lparr>script := as\<rparr>))"

definition sim_env :: "sim env" where
  "sim_env =
     \<lparr>sys_open = (\<lambda>d. (if open_ok d then 3 else - 1, d)),
      sys_mmap = (\<lambda>len fd base d. (if mmap_ok d base then Mapped base else MAP_FAILED, d)),
      reg_read = sim_read,
      reg_write = sim_write,
      sys_usleep = sim_usleep,
      cancel_pending = cancel_req\<rparr>"

text \<open>A quiet device: all registers zero, both FIFOs empty, nothing scripted.\<close>

definition sim0 :: sim where
  "sim0 =
     \<lparr>bsc_mem = (\<lambda>_. 0), gpio_mem = (\<lambda>_. 0), tx_fifo = [], tx_staged = None, rx_fifo = [],
      on_wire = [], script = [], cancel_req = False, open_ok = True, mmap_ok = (\<lambda>_. True)\<rparr>"

text \<open>The process before \<open>init_bcm_reg_mem\<close> and after a successful one.\<close>

definition unmapped :: "'w \<Rightarrow> 'w machine" where
  "unmapped w = \<lparr>mem_fd = - 1, bsc = NULL, gpio_reg = NULL, world = w, trace = []\<rparr>"

definition mapped :: "'w \<Rightarrow> 'w machine" where
  "mapped w =
     \<lparr>mem_fd = 3, bsc = Mapped BSC_BASE, gpio_reg = Mapped GPIO_BASE, world = w, trace = []\<rparr>"

section \<open>Reading a trace\<close>

text \<open>The callback invocations of a trace, in order: the address passed and the answer.\<close>

fun callbacks :: "event list \<Rightarrow> (u16 \<times> u8 option) list" where
  "callbacks [] = []"
| "callbacks (Callback a r # t) = (a, r) # callbacks t"
| "callbacks (_ # t) = callbacks t"

text \<open>The bytes that a list of callback invocations supplied.\<close>

fun supplied :: "(u16 \<times> u8 option) list \<Rightarrow> u8 list" where
  "supplied [] = []"
| "supplied ((a, Some b) # cs) = b # supplied cs"
| "supplied ((a, None) # cs) = supplied cs"

text \<open>The values stored to word \<open>i\<close> of a register window, in order.\<close>

fun stores :: "nat \<Rightarrow> event list \<Rightarrow> u32 list" where
  "stores i [] = []"
| "stores i (RegWrite b j v # t) = (if j = i then v # stores i t else stores i t)"
| "stores i (_ # t) = stores i t"

text \<open>
  The callback invocations of \<open>t\<close> run through consecutive addresses from \<open>a\<close>, each
  answered by \<open>cb\<close>, and the stores to the data register are exactly the bytes supplied.
\<close>

definition in_sequence :: "(u16 \<Rightarrow> u8 option) \<Rightarrow> u16 \<Rightarrow> event list \<Rightarrow> bool" where
  "in_sequence cb a t \<longleftrightarrow>
     callbacks t = map (\<lambda>i. (a + of_nat i, cb (a + of_nat i))) [0..<length (callbacks t)] \<and>
     stores BSC_DR t = map ucast (supplied (callbacks t))"

text \<open>Sample inputs: a device with both error flags raised and two received bytes, one
  with three bytes left in the transmit FIFO, a master that reads three bytes and then
  writes one, and a callback with three bytes to send.\<close>

definition sim_overrun :: sim where
  "sim_overrun =
     sim0\<lparr>bsc_mem := (\<lambda>i. if i = BSC_RSR then RSR_OE OR RSR_UE else 0), rx_fifo := [0xAA, 0xBB]\<rparr>"


definition sim_scenario :: sim where
  "sim_scenario = sim0\<lparr>script := [MasterReads, MasterReads, MasterReads, MasterWrites 0x5A]\<rparr>"

definition cb3 :: "u16 \<Rightarrow> u8 option" where
  "cb3 a = (if a = 0 then Some 0x11 else if a = 1 then Some 0x22
            else if a = 2 then Some 0x33 else None)"

text \<open>
  A property \<open>I\<close> of the world outside the process is preserved by an environment when no
  register access and no sleep breaks it; a step keeps it when it holds after the step
  whenever it held before.  A callback with five bytes to send.
\<close>

definition keeps :: "('w \<Rightarrow> bool) \<Rightarrow> ('w, 'a) prog \<Rightarrow> bool" where
  "keeps I m \<longleftrightarrow> (\<forall>s out s'. I (world s) \<and> m s = (out, s') \<longrightarrow> I (world s'))"

definition preserved :: "'w env \<Rightarrow> ('w \<Rightarrow> bool) \<Rightarrow> bool" where
  "preserved E I \<longleftrightarrow>
     (\<forall>b i w. I w \<longrightarrow> I (snd (reg_read E b i w))) \<and>
     (\<forall>b i v w. I w \<longrightarrow> I (reg_write E b i v w)) \<and>
     (\<forall>n w. I w \<longrightarrow> I (sys_usleep E n w))"

definition cb5 :: "u16 \<Rightarrow> u8 option" where
  "cb5 a = (if a < 5 then Some (0x10 + ucast a) else None)"

section \<open>Basic facts about the primitive steps\<close>

lemmas prim_defs = ret_def then_do_def emit_def load_def store_def bsc_rd_def bsc_wr_def
  gpio_rd_def gpio_wr_def testcancel_def usleep_def

lemma gpio_set_mode_mapped:
  "gpio_reg s = Mapped b \<Longrightarrow>
   gpio_set_mode E gpio mode s =
     (let reg = unat (gpio div 10); shift = unat (gpio mod 10) * 3;
          r1 = reg_read E b reg (world s);
          v1 = fst r1 AND NOT (push_bit shift 7);
          w2 = reg_write E b reg v1 (snd r1);
          r2 = reg_read E b reg w2;
          v2 = fst r2 OR push_bit shift mode
      in (Inr (), s\<lparr>world := reg_write E b reg v2 (snd r2),
                     trace := trace s @ [RegRead b reg (fst r1), RegWrite b reg v1,
                                         RegRead b reg (fst r2), RegWrite b reg v2]\<rparr>))"
  by (simp add: gpio_set_mode_def prim_defs Let_def split: prod.splits)

lemma gpio_set_mode_unmapped:
  "gpio_reg s = NULL \<or> gpio_reg s = MAP_FAILED \<Longrightarrow>
   gpio_set_mode E gpio mode s = (Inl SegFault, s)"
  by (auto simp add: gpio_set_mode_def prim_defs Let_def)

section \<open>Initialising the slave\<close>

text \<open>
  Claim C9.  Whenever \<open>init_bsc_i2c_slv\<close> succeeds, for any 8-bit address, the last two
  things it does are the store of the address shifted right by one bit into the
  slave-address register and then a single store to the control register of the value
  with transmit enable, receive enable, I2C mode and device enable set.
\<close>

theorem init_programs_address_then_enables:
  assumes "init_bsc_i2c_slv E i2c_addr s = (Inr True, s')"
  shows "\<exists>b pre. bsc s = Mapped b \<and>
           trace s' = trace s @ pre @
             [RegWrite b BSC_SLV (ucast (drop_bit 1 i2c_addr)),
              RegWrite b BSC_CR (CR_TXE OR CR_RXE OR CR_I2C OR CR_EN)]"
proof (cases "bsc s")
  case NULL
  with assms show ?thesis by (simp add: init_bsc_i2c_slv_def prim_defs)
next
  case MAP_FAILED
  with assms show ?thesis
    by (cases "gpio_reg s")
      (auto simp add: init_bsc_i2c_slv_def gpio_set_mode_def prim_defs Let_def
            split: prod.splits)
next
  case (Mapped b)
  note bsc = this
  show ?thesis
  proof (cases "gpio_reg s")
    case (Mapped g)
    with assms bsc show ?thesis
      by (auto simp add: init_bsc_i2c_slv_def gpio_set_mode_mapped prim_defs Let_def
               split: prod.splits)
  next
    case NULL
    with assms bsc show ?thesis
      by (simp add: init_bsc_i2c_slv_def gpio_set_mode_unmapped then_do_def)
  next
    case MAP_FAILED
    with assms bsc show ?thesis
      by (simp add: init_bsc_i2c_slv_def gpio_set_mode_unmapped then_do_def)
  qed
qed

theorem init_programs_address_then_enables_witness:
  "\<exists>pre. trace (snd (init_bsc_i2c_slv sim_env 0x43 (mapped sim0))) =
     pre @ [RegWrite BSC_BASE BSC_SLV 0x21, RegWrite BSC_BASE BSC_CR 0x305]"
proof -
  have "fst (init_bsc_i2c_slv sim_env 0x43 (mapped sim0)) = Inr True"
    by code_simp
  then have run: "init_bsc_i2c_slv sim_env 0x43 (mapped sim0) =
      (Inr True, snd (init_bsc_i2c_slv sim_env 0x43 (mapped sim0)))"
    by (simp add: prod_eq_iff)
  have tr: "trace (mapped sim0 :: sim machine) = []" and b: "bsc (mapped sim0 :: sim machine) = Mapped BSC_BASE"
    by (simp_all add: mapped_def)
  from init_programs_address_then_enables [OF run] show ?thesis
    by (simp add: tr b)
qed

text \<open>
  Claim C7, as the code has it.  Only \<open>init_bsc_i2c_slv\<close> tests the mapping: called
  while \<open>bsc\<close> is null it returns false, having written a diagnostic and touched no
  register.  \<open>shutdown_bsc_i2c_slv\<close>, \<open>bsc_i2c_receiving\<close>, \<open>bsc_i2c_read_poll\<close> (with a
  buffer and a positive length) and \<open>bsc_i2c_write\<close> make no test: with \<open>bsc\<close> null their
  first register access is the dereference of a null pointer, a fault and not an error
  result.
\<close>

theorem init_slave_checks_mapping:
  assumes "bsc s = NULL"
  shows "init_bsc_i2c_slv E i2c_addr s =
           (Inr False,
            s\<lparr>trace := trace s @
               [Stderr ''pi2cslave: init_bcm_reg_mem() has not been called'']\<rparr>) \<and>
         shutdown_bsc_i2c_slv E s = (Inl SegFault, s) \<and>
         bsc_i2c_receiving E s = (Inl SegFault, s) \<and>
         (\<not> cancel_pending E (world s) \<and> 0 < len \<longrightarrow>
            bsc_i2c_read_poll E (Some buf) len s = (Inl SegFault, s)) \<and>
         (\<not> cancel_pending E (world s) \<longrightarrow>
            bsc_i2c_write E cb addr s = Some (Inl SegFault, s))"
proof -
  have "bsc_i2c_read_poll E (Some buf) len s = (Inl SegFault, s)"
    if "\<not> cancel_pending E (world s)" "0 < len"
  proof -
    from that(2) obtain k where "len = Suc k" by (cases len) auto
    with that(1) assms show ?thesis
      by (simp add: bsc_i2c_read_poll_def prim_defs)
  qed
  moreover have "bsc_i2c_write E cb addr s = Some (Inl SegFault, s)"
    if "\<not> cancel_pending E (world s)"
    using that assms
    by (simp add: bsc_i2c_write_def reply_loop.simps [of E cb addr 0 s] prim_defs)
  ultimately show ?thesis
    using assms
    by (simp add: init_bsc_i2c_slv_def shutdown_bsc_i2c_slv_def bsc_i2c_receiving_def prim_defs)
qed

theorem init_slave_checks_mapping_witness:
  "init_bsc_i2c_slv sim_env 0x43 (unmapped sim0) =
     (Inr False,
      (unmapped sim0)\<lparr>trace :=
         [Stderr ''pi2cslave: init_bcm_reg_mem() has not been called'']\<rparr>) \<and>
   shutdown_bsc_i2c_slv sim_env (unmapped sim0) = (Inl SegFault, unmapped sim0) \<and>
   bsc_i2c_receiving sim_env (unmapped sim0) = (Inl SegFault, unmapped sim0) \<and>
   bsc_i2c_read_poll sim_env (Some [0]) 1 (unmapped sim0) = (Inl SegFault, unmapped sim0) \<and>
   bsc_i2c_write sim_env cb3 0 (unmapped sim0) = Some (Inl SegFault, unmapped sim0)"
proof -
  have null: "bsc (unmapped sim0) = NULL"
    by (simp add: unmapped_def)
  have quiet: "\<not> cancel_pending sim_env (world (unmapped sim0))"
    by (simp add: unmapped_def sim_env_def sim0_def)
  have t: "trace (unmapped sim0 :: sim machine) = []"
    by (simp add: unmapped_def)
  from init_slave_checks_mapping [OF null, where E = sim_env and len = 1] quiet
  show ?thesis by (simp add: t)
qed

text \<open>
  The claim C7 as stated fails: on a process that has not mapped the registers the four
  operations below end in a fault where the claim has them return an error.
\<close>

theorem uninitialised_polls_fault_counterexample:
  "fst (shutdown_bsc_i2c_slv sim_env (unmapped sim0)) = Inl SegFault \<and>
   fst (bsc_i2c_receiving sim_env (unmapped sim0)) = Inl SegFault \<and>
   fst (bsc_i2c_read_poll sim_env (Some [0]) 1 (unmapped sim0)) = Inl SegFault \<and>
   map_option fst (bsc_i2c_write sim_env (\<lambda>a. None) 0 (unmapped sim0)) = Some (Inl SegFault)"
  by code_simp

section \<open>Mapping the registers: results\<close>

text \<open>
  \<open>init_bcm_reg_mem\<close> returns true exactly when the device could be opened and the
  first \<open>mmap\<close> did not return \<open>NULL\<close>; the result of the second \<open>mmap\<close> plays no part.
\<close>

lemma init_bcm_reg_mem_result:
  "fst (init_bcm_reg_mem E s) = Inr True \<longleftrightarrow>
     0 \<le> fst (sys_open E (world s)) \<and>
     fst (sys_mmap E BSC_LEN (fst (sys_open E (world s))) BSC_BASE (snd (sys_open E (world s)))) \<noteq> NULL"
  by (auto simp add: init_bcm_reg_mem_def do_mmap_def prim_defs Let_def split: prod.splits)

text \<open>
  Claim C3 at a failing input.  The device opens, the BSC window is mapped and the GPIO
  mapping fails: \<open>init_bcm_reg_mem\<close> returns true and leaves \<open>MAP_FAILED\<close> in
  \<open>gpio_reg\<close>.  It returns true as well when both mappings fail.
\<close>

theorem init_bcm_reg_mem_gpio_map_failure:
  "fst (init_bcm_reg_mem sim_env (unmapped (sim0\<lparr>mmap_ok := (\<lambda>b. b = BSC_BASE)\<rparr>))) = Inr True \<and>
   gpio_reg (snd (init_bcm_reg_mem sim_env (unmapped (sim0\<lparr>mmap_ok := (\<lambda>b. b = BSC_BASE)\<rparr>))))
     = MAP_FAILED \<and>
   fst (init_bcm_reg_mem sim_env (unmapped (sim0\<lparr>mmap_ok := (\<lambda>b. False)\<rparr>))) = Inr True"
  by code_simp

section \<open>GPIO: results\<close>

lemma unat_pin_div: "0 \<le> g \<Longrightarrow> g < 28 \<Longrightarrow> unat ((word_of_int g :: u32) div 10) = nat g div 10"
  and unat_pin_mod: "0 \<le> g \<Longrightarrow> g < 28 \<Longrightarrow> unat ((word_of_int g :: u32) mod 10) = nat g mod 10"
proof -
  assume g: "0 \<le> g" "g < 28"
  then have "unat (word_of_int g :: u32) = nat g"
    by (simp add: unat_eq_nat_uint uint_word_of_int take_bit_int_eq_self)
  then show "unat ((word_of_int g :: u32) div 10) = nat g div 10"
    and "unat ((word_of_int g :: u32) mod 10) = nat g mod 10"
    by (simp_all add: unat_div unat_mod)
qed

text \<open>
  Claim C10.  For a pin in \<open>[0, 28)\<close> and mapped GPIO registers, \<open>bcm_set_gpio_out\<close>
  with \<open>GPIO_STATE_FLOAT\<close> returns true after exactly two stores, both to the pin's
  function-select register \<open>gpio / 10\<close>: the first stores the value just read with only
  the pin's three bits cleared (function input), the second stores back the value read
  after it.  That register is neither \<open>GPSET0\<close> nor \<open>GPCLR0\<close>, so no output latch is
  written.  Without a mapping nothing is stored at all: the call returns false when
  \<open>gpio_reg\<close> is null and faults when it is \<open>MAP_FAILED\<close>.
\<close>

theorem float_writes_only_function_select:
  assumes "0 \<le> gpio" and "gpio < GPIO_COUNT"
  shows "case gpio_reg s of
           Mapped b \<Rightarrow>
             (\<exists>v1 v2 s'.
                bcm_set_gpio_out E gpio GPIO_STATE_FLOAT s = (Inr True, s') \<and>
                trace s' = trace s @
                  [RegRead b (nat gpio div 10) v1,
                   RegWrite b (nat gpio div 10) (v1 AND NOT (push_bit (nat gpio mod 10 * 3) 7)),
                   RegRead b (nat gpio div 10) v2,
                   RegWrite b (nat gpio div 10) v2] \<and>
                (\<forall>n. bit (v1 AND NOT (push_bit (nat gpio mod 10 * 3) 7)) n \<longleftrightarrow>
                       bit v1 n \<and>
                       \<not> (nat gpio mod 10 * 3 \<le> n \<and> n < nat gpio mod 10 * 3 + 3)) \<and>
                nat gpio div 10 \<noteq> GPSET0 \<and> nat gpio div 10 \<noteq> GPCLR0)
         | NULL \<Rightarrow>
             bcm_set_gpio_out E gpio GPIO_STATE_FLOAT s =
               (Inr False,
                s\<lparr>trace := trace s @
                   [Stderr ''pi2cslave: init_bcm_reg_mem() has not been called'']\<rparr>)
         | MAP_FAILED \<Rightarrow>
             bcm_set_gpio_out E gpio GPIO_STATE_FLOAT s = (Inl SegFault, s)"
proof (cases "gpio_reg s")
  case NULL
  then show ?thesis
    by (simp add: bcm_set_gpio_out_def prim_defs)
next
  case MAP_FAILED
  with assms show ?thesis
    by (simp add: bcm_set_gpio_out_def gpio_set_mode_unmapped then_do_def)
next
  case (Mapped b)
  have "\<And>v n. bit (v AND NOT (push_bit (nat gpio mod 10 * 3) (7 :: u32))) n \<longleftrightarrow>
                  bit v n \<and> \<not> (nat gpio mod 10 * 3 \<le> n \<and> n < nat gpio mod 10 * 3 + 3)"
  proof -
    fix v :: u32 and n
    have m: "(7 :: u32) = mask 3" by (simp add: mask_eq_exp_minus_1)
    show "bit (v AND NOT (push_bit (nat gpio mod 10 * 3) (7 :: u32))) n \<longleftrightarrow>
                  bit v n \<and> \<not> (nat gpio mod 10 * 3 \<le> n \<and> n < nat gpio mod 10 * 3 + 3)"
      unfolding m
      by (auto simp add: bit_and_iff bit_not_iff bit_push_bit_iff bit_mask_iff
          dest: bit_imp_le_length)
  qed
  moreover have "nat gpio div 10 \<noteq> GPSET0" "nat gpio div 10 \<noteq> GPCLR0"
    using assms by linarith+
  ultimately show ?thesis
    using assms Mapped
    by (simp add: bcm_set_gpio_out_def gpio_set_mode_mapped then_do_def ret_def Let_def
        unat_pin_div unat_pin_mod)
qed

theorem float_writes_only_function_select_witness:
  "\<exists>v1 v2 s'.
     bcm_set_gpio_out sim_env 14 GPIO_STATE_FLOAT (mapped sim0) = (Inr True, s') \<and>
     trace s' = [RegRead GPIO_BASE 1 v1, RegWrite GPIO_BASE 1 (v1 AND NOT (push_bit 12 7)),
                 RegRead GPIO_BASE 1 v2, RegWrite GPIO_BASE 1 v2]"
proof -
  have m: "gpio_reg (mapped sim0) = Mapped GPIO_BASE" and t: "trace (mapped sim0) = []"
    by (simp_all add: mapped_def)
  from float_writes_only_function_select [of 14, where s = "mapped sim0" and E = sim_env]
  show ?thesis by (simp add: m t) blast
qed





section \<open>Receiving\<close>

lemma sint_of_nat_le: "sint (word_of_nat n :: u32) \<le> int n"
proof -
  have "(- (2 ^ 31) :: int) \<le> 0" by simp
  also have "0 \<le> uint (word_of_nat n :: u32)" by simp
  finally have "sint (word_of_nat n :: u32) \<le> uint (word_of_nat n :: u32)"
    by (simp add: sint_uint signed_take_bit_int_less_eq_self_iff)
  also have "\<dots> = int (unat (word_of_nat n :: u32))"
    by simp
  also have "\<dots> \<le> int n"
    by (simp add: unat_of_nat)
  finally show ?thesis .
qed

lemma nz_bit1: "(x :: u32) AND 2 \<noteq> 0 \<longleftrightarrow> bit x 1"
  using and_exp_eq_0_iff_not_bit [of x 1] by simp


lemma sim_fr_rxfe: "sim_fr d AND FR_RXFE \<noteq> 0 \<longleftrightarrow> rx_fifo d = []"
  by (simp add: nz_bit1 sim_fr_def bit_or_iff bit_push_bit_iff bit_and_iff)


lemma sim_bsc_rd_fr:
  "bsc s = Mapped BSC_BASE \<Longrightarrow>
   bsc_rd sim_env BSC_FR s =
     (Inr (sim_fr (world s)), s\<lparr>trace := trace s @ [RegRead BSC_BASE BSC_FR (sim_fr (world s))]\<rparr>)"
  by (simp add: bsc_rd_def load_def sim_env_def sim_read_def)

lemma read_byte_sim:
  "bsc s = Mapped BSC_BASE \<Longrightarrow> read_byte sim_env buf read s = (Inr buf', s') \<Longrightarrow>
   bsc s' = bsc s \<and> rx_fifo (world s') = tl (rx_fifo (world s))"
  by (auto simp add: read_byte_def prim_defs sim_env_def sim_read_def sim_write_def
      split: if_splits list.splits)

lemma read_loop_count:
  "read_loop E len buf read s = (Inr (n, buf'), s') \<Longrightarrow> read \<le> n \<and> n \<le> read + len"
proof (induction len arbitrary: buf read s)
  case 0
  then show ?case by simp
next
  case (Suc len)
  then show ?case
    by (fastforce split: prod.splits sum.splits if_splits)
qed

lemma read_loop_sim_bound:
  "read_loop sim_env len buf read s = (Inr (n, buf'), s') \<Longrightarrow> bsc s = Mapped BSC_BASE \<Longrightarrow>
   n \<le> read + length (rx_fifo (world s))"
proof (induction len arbitrary: buf read s)
  case 0
  then show ?case by simp
next
  case (Suc len)
  let ?s1 = "s\<lparr>trace := trace s @ [RegRead BSC_BASE BSC_FR (sim_fr (world s))]\<rparr>"
  show ?case
  proof (cases "rx_fifo (world s) = []")
    case True
    with Suc.prems show ?thesis
      by (simp add: sim_bsc_rd_fr sim_fr_rxfe)
  next
    case False
    with Suc.prems obtain buf1 s2 where
      rb: "read_byte sim_env buf read ?s1 = (Inr buf1, s2)" and
      rl: "read_loop sim_env len buf1 (read + 1) s2 = (Inr (n, buf'), s')"
      by (auto simp add: sim_bsc_rd_fr sim_fr_rxfe split: prod.splits sum.splits)
    from read_byte_sim [OF _ rb] Suc.prems(2)
    have "bsc s2 = Mapped BSC_BASE" and "rx_fifo (world s2) = tl (rx_fifo (world s))"
      by simp_all
    with Suc.IH [OF rl] False show ?thesis
      by (cases "rx_fifo (world s)") simp_all
  qed
qed

text \<open>
  Claim C5.  The count that \<open>bsc_i2c_read_poll\<close> returns is at most \<open>len\<close>, for any
  environment; with \<open>len = 0\<close> or a null buffer it is 0 and nothing is accessed, and (when
  no cancellation is pending) the call does return.  On the simulated peripheral, with
  \<open>bsc\<close> mapped onto it, the count is at most the number of bytes the receive FIFO held
  at the call; and when the FIFO is empty the loop returns the count read so far after the
  single read of the flag register, without sleeping.
\<close>

theorem read_poll_count_bounded:
  "(bsc_i2c_read_poll E buf len s = (Inr (n, buf'), s') \<longrightarrow>
      n \<le> int len \<and> (len = 0 \<or> buf = None \<longrightarrow> n = 0 \<and> buf' = buf \<and> s' = s)) \<and>
   (\<not> cancel_pending E (world s) \<and> (len = 0 \<or> buf = None) \<longrightarrow>
      bsc_i2c_read_poll E buf len s = (Inr (0, buf), s)) \<and>
   (bsc t = Mapped BSC_BASE \<and> bsc_i2c_read_poll sim_env buf len t = (Inr (m, buf''), t') \<longrightarrow>
      m \<le> int (length (rx_fifo (world t)))) \<and>
   (bsc t = Mapped BSC_BASE \<and> rx_fifo (world t) = [] \<and> 0 < len \<longrightarrow>
      read_loop sim_env len b read t =
        (Inr (read, b), t\<lparr>trace := trace t @ [RegRead BSC_BASE BSC_FR (sim_fr (world t))]\<rparr>))"
proof -
  have p1: "n \<le> int len \<and> (len = 0 \<or> buf = None \<longrightarrow> n = 0 \<and> buf' = buf \<and> s' = s)"
    if run: "bsc_i2c_read_poll E buf len s = (Inr (n, buf'), s')"
  proof (cases "len = 0 \<or> buf = None")
    case True
    with run show ?thesis
      by (auto simp add: bsc_i2c_read_poll_def prim_defs split: if_splits)
  next
    case False
    with run obtain k b1 s1 where "read_loop E len (the buf) 0 s = (Inr (k, b1), s1)"
      and n: "n = sint (word_of_nat k :: u32)"
      by (auto simp add: bsc_i2c_read_poll_def prim_defs split: if_splits prod.splits sum.splits)
    from read_loop_count [OF this(1)] have "k \<le> len" by simp
    with sint_of_nat_le [of k] n False show ?thesis by linarith
  qed
  have p2: "bsc_i2c_read_poll E buf len s = (Inr (0, buf), s)"
    if "\<not> cancel_pending E (world s) \<and> (len = 0 \<or> buf = None)"
    using that by (auto simp add: bsc_i2c_read_poll_def prim_defs)
  have p3: "m \<le> int (length (rx_fifo (world t)))"
    if a: "bsc t = Mapped BSC_BASE \<and> bsc_i2c_read_poll sim_env buf len t = (Inr (m, buf''), t')"
  proof (cases "len = 0 \<or> buf = None")
    case True
    with a show ?thesis
      by (auto simp add: bsc_i2c_read_poll_def prim_defs split: if_splits)
  next
    case False
    with a obtain k b1 s1 where "read_loop sim_env len (the buf) 0 t = (Inr (k, b1), s1)"
      and m: "m = sint (word_of_nat k :: u32)"
      by (auto simp add: bsc_i2c_read_poll_def prim_defs split: if_splits prod.splits sum.splits)
    from read_loop_sim_bound [OF this(1)] a have "k \<le> length (rx_fifo (world t))" by simp
    with sint_of_nat_le [of k] m show ?thesis by linarith
  qed
  have p4: "read_loop sim_env len b read t =
        (Inr (read, b), t\<lparr>trace := trace t @ [RegRead BSC_BASE BSC_FR (sim_fr (world t))]\<rparr>)"
    if a: "bsc t = Mapped BSC_BASE \<and> rx_fifo (world t) = [] \<and> 0 < len"
  proof -
    from a obtain k where "len = Suc k" by (cases len) auto
    with a show ?thesis
      by (simp add: sim_bsc_rd_fr sim_fr_rxfe)
  qed
  from p1 p2 p3 p4 show ?thesis by blast
qed

theorem read_poll_count_bounded_witness:
  "\<exists>s'. bsc_i2c_read_poll sim_env (Some [0, 0, 0]) 3 (mapped sim_overrun) =
          (Inr (2, Some [0xAA, 0xBB, 0]), s') \<and>
        (2 :: int) \<le> int 3 \<and> 2 \<le> int (length (rx_fifo (world (mapped sim_overrun))))"
proof -
  have "fst (bsc_i2c_read_poll sim_env (Some [0, 0, 0]) 3 (mapped sim_overrun)) =
      Inr (2, Some [0xAA, 0xBB, 0])"
    by code_simp
  then obtain s' where run: "bsc_i2c_read_poll sim_env (Some [0, 0, 0]) 3 (mapped sim_overrun) =
      (Inr (2, Some [0xAA, 0xBB, 0]), s')"
    by (cases "bsc_i2c_read_poll sim_env (Some [0, 0, 0]) 3 (mapped sim_overrun)") simp
  have m: "bsc (mapped sim_overrun) = Mapped BSC_BASE"
    by (simp add: mapped_def)
  from read_poll_count_bounded [of sim_env "Some [0, 0, 0]" 3 "mapped sim_overrun" 2
      "Some [0xAA, 0xBB, 0]" s' "mapped sim_overrun" 2 "Some [0xAA, 0xBB, 0]" s'] run m
  show ?thesis by simp
qed

lemma load_trace: "load E p i s = (out, s') \<Longrightarrow> \<exists>t. trace s' = trace s @ t"
  by (cases p) (auto simp add: load_def split: prod.splits)

lemma store_trace: "store E p i v s = (out, s') \<Longrightarrow> \<exists>t. trace s' = trace s @ t"
  by (cases p) (auto simp add: store_def)

lemma then_do_trace:
  assumes r: "then_do m f s = (out, s')"
    and m: "\<And>o1 s1. m s = (o1, s1) \<Longrightarrow> \<exists>t. trace s1 = trace s @ t"
    and f: "\<And>v s1 . f v s1 = (out, s') \<Longrightarrow> \<exists>t. trace s' = trace s1 @ t"
  shows "\<exists>t. trace s' = trace s @ t"
proof -
  obtain o1 s1 where m1: "m s = (o1, s1)" by fastforce
  from m [OF m1] obtain t1 where t1: "trace s1 = trace s @ t1" ..
  show ?thesis
  proof (cases o1)
    case (Inl e)
    with r m1 t1 show ?thesis by (auto simp add: then_do_def)
  next
    case (Inr v)
    with r m1 have "f v s1 = (out, s')" by (simp add: then_do_def)
    from f [OF this] t1 show ?thesis by auto
  qed
qed

lemma read_byte_frame:
  assumes "read_byte E buf read s = (out, s')"
  shows "(\<exists>t. trace s' = trace s @ t) \<and>
         (\<forall>buf'. out = Inr buf' \<longrightarrow> read < length buf \<and> (\<exists>x. buf' = buf[read := x]))"
proof
  show "\<exists>t. trace s' = trace s @ t"
    using assms unfolding read_byte_def
    apply (rule then_do_trace)
     apply (auto simp add: testcancel_def split: if_splits)[1]
    apply (erule then_do_trace)
     apply (auto simp add: bsc_rd_def dest: load_trace)[1]
    apply (erule then_do_trace)
     apply (auto simp add: ret_def emit_def bsc_rd_def bsc_wr_def then_do_def
        split: if_splits prod.splits sum.splits dest!: load_trace store_trace)[1]
    apply (erule then_do_trace)
     apply (auto simp add: bsc_rd_def dest: load_trace split: if_splits)
    done
  show "\<forall>buf'. out = Inr buf' \<longrightarrow> read < length buf \<and> (\<exists>x. buf' = buf[read := x])"
    using assms unfolding read_byte_def then_do_def
    by (auto split: prod.splits sum.splits if_splits)
qed

lemma read_loop_frame:
  "read_loop E len buf read s = (out, s') \<Longrightarrow>
   (\<exists>t. trace s' = trace s @ t) \<and>
   (\<forall>k buf'. out = Inr (k, buf') \<longrightarrow>
      length buf' = length buf \<and> read \<le> k \<and> (\<forall>i<read. buf' ! i = buf ! i))"
proof (induction len arbitrary: buf read s)
  case 0
  then show ?case by auto
next
  case (Suc len)
  obtain o1 s1 where rd: "bsc_rd E BSC_FR s = (o1, s1)" by fastforce
  then obtain t1 where t1: "trace s1 = trace s @ t1"
    by (auto simp add: bsc_rd_def dest: load_trace)
  show ?case
  proof (cases "\<exists>fr. o1 = Inr fr \<and> fr AND FR_RXFE = 0")
    case False
    with Suc.prems rd t1 show ?thesis
      by (cases o1) (auto split: if_splits)
  next
    case True
    then obtain fr where fr: "o1 = Inr fr" "fr AND FR_RXFE = 0" by blast
    obtain o2 s2 where rb: "read_byte E buf read s1 = (o2, s2)" by fastforce
    from read_byte_frame [OF rb] obtain t2 where t2: "trace s2 = trace s1 @ t2" 
      and b2: "\<forall>buf'. o2 = Inr buf' \<longrightarrow> read < length buf \<and> (\<exists>x. buf' = buf[read := x])"
      by blast
    show ?thesis
    proof (cases o2)
      case (Inl e)
      with Suc.prems rd fr rb t1 t2 show ?thesis by auto
    next
      case (Inr buf1)
      with Suc.prems rd fr rb have rl: "read_loop E len buf1 (read + 1) s2 = (out, s')"
        by simp
      from b2 Inr obtain x where x: "buf1 = buf[read := x]" "read < length buf" by blast
      from Suc.IH [OF rl] t1 t2 x show ?thesis by auto
    qed
  qed
qed


lemma clear_oe_bits: "bit ((v :: u32) AND NOT RSR_OE) n \<longleftrightarrow> bit v n \<and> n \<noteq> 0"
  by (auto simp add: bit_and_iff bit_not_iff bit_1_iff dest: bit_imp_le_length)

lemma clear_oe_idle: "(v :: u32) AND RSR_OE = 0 \<Longrightarrow> v AND NOT RSR_OE = v"
proof (rule bit_word_eqI)
  fix n assume "v AND RSR_OE = 0"
  then have "\<not> bit v 0" using and_exp_eq_0_iff_not_bit [of v 0] by simp
  then show "bit (v AND NOT RSR_OE) n \<longleftrightarrow> bit v n"
    unfolding clear_oe_bits by (cases "n = 0") simp_all
qed

lemma clear_oe_twice: "((v :: u32) AND NOT RSR_OE) AND NOT RSR_OE = v AND NOT RSR_OE"
  by (simp add: and.assoc)

lemma low_byte: "ucast ((ucast (x :: u8) :: u32) AND 0xFF) = x"
proof -
  have m: "(0xFF :: u32) = mask 8" by (simp add: mask_eq_exp_minus_1)
  show ?thesis unfolding m
    by (rule bit_word_eqI) (auto simp add: bit_simps dest: bit_imp_le_length)
qed

lemma read_loop_overrun_step:
  assumes "bsc s = Mapped b" and "reg_read E b BSC_FR (world s) = (fr, w1)"
    and "fr AND FR_RXFE = 0" and "\<not> cancel_pending E w1"
    and "reg_read E b BSC_RSR w1 = (v, w2)" and "v AND RSR_OE \<noteq> 0"
    and "reg_read E b BSC_RSR w2 = (v', w3)"
    and "reg_read E b BSC_DR (reg_write E b BSC_RSR (v' AND NOT RSR_OE) w3) = (d, w5)"
    and "read < length buf"
  shows "read_loop E (Suc len) buf read s =
           read_loop E len (buf[read := ucast (d AND 0xFF)]) (read + 1)
             (s\<lparr>world := w5,
                trace := trace s @
                  [RegRead b BSC_FR fr, RegRead b BSC_RSR v, Stderr ''pi2cslave: Overflow!'',
                   RegRead b BSC_RSR v', RegWrite b BSC_RSR (v' AND NOT RSR_OE),
                   RegRead b BSC_DR d]\<rparr>)"
  using assms by (simp add: read_byte_def prim_defs)

lemma read_byte_sim_exact:
  assumes "bsc s = Mapped BSC_BASE" and "\<not> cancel_req (world s)"
    and "rx_fifo (world s) = x # xs" and "read < length buf"
  shows "\<exists>s'. read_byte sim_env buf read s = (Inr (buf[read := x]), s') \<and>
           bsc s' = bsc s \<and> rx_fifo (world s') = xs \<and> \<not> cancel_req (world s') \<and>
           bsc_mem (world s') BSC_RSR = bsc_mem (world s) BSC_RSR AND NOT RSR_OE"
proof (cases "bsc_mem (world s) BSC_RSR AND RSR_OE = 0")
  case True
  from clear_oe_idle [OF True] have "bsc_mem (world s) BSC_RSR AND - 2 = bsc_mem (world s) BSC_RSR"
    by simp
  with True assms show ?thesis
    by (simp add: read_byte_def prim_defs sim_env_def sim_read_def sim_write_def low_byte)
next
  case False
  with assms show ?thesis
    by (simp add: read_byte_def prim_defs sim_env_def sim_read_def sim_write_def low_byte)
qed


lemma read_loop_sim_run:
  "bsc s = Mapped BSC_BASE \<Longrightarrow> \<not> cancel_req (world s) \<Longrightarrow>
   read + min len (length (rx_fifo (world s))) \<le> length buf \<Longrightarrow>
   \<exists>buf' s'.
     read_loop sim_env len buf read s =
       (Inr (read + min len (length (rx_fifo (world s))), buf'), s') \<and>
     (\<forall>i < min len (length (rx_fifo (world s))). buf' ! (read + i) = rx_fifo (world s) ! i) \<and>
     length buf' = length buf \<and>
     rx_fifo (world s') = drop (min len (length (rx_fifo (world s)))) (rx_fifo (world s)) \<and>
     bsc_mem (world s') BSC_RSR =
       (if min len (length (rx_fifo (world s))) = 0 then bsc_mem (world s) BSC_RSR
        else bsc_mem (world s) BSC_RSR AND NOT RSR_OE)"
proof (induction len arbitrary: buf read s)
  case 0
  then show ?case by simp
next
  case (Suc len)
  let ?s1 = "s\<lparr>trace := trace s @ [RegRead BSC_BASE BSC_FR (sim_fr (world s))]\<rparr>"
  show ?case
  proof (cases "rx_fifo (world s)")
    case Nil
    with Suc.prems show ?thesis
      by (simp add: sim_bsc_rd_fr sim_fr_rxfe)
  next
    case (Cons x xs)
    with Suc.prems have rd: "read < length buf" by simp
    from read_byte_sim_exact [of ?s1 x xs read buf] Suc.prems(1,2) Cons rd
    obtain s2 where
      rb: "read_byte sim_env buf read ?s1 = (Inr (buf[read := x]), s2)" and
      s2: "bsc s2 = Mapped BSC_BASE" "rx_fifo (world s2) = xs" "\<not> cancel_req (world s2)"
        "bsc_mem (world s2) BSC_RSR = bsc_mem (world s) BSC_RSR AND NOT RSR_OE"
      by auto
    from Suc.prems(3) Cons have room: "read + 1 + min len (length xs) \<le> length (buf[read := x])"
      by simp
    from Suc.IH [of s2 "read + 1" "buf[read := x]"] s2 room
    obtain buf' s' where
      rl: "read_loop sim_env len (buf[read := x]) (read + 1) s2 =
             (Inr (read + 1 + min len (length xs), buf'), s')" and
      bytes: "\<forall>i < min len (length xs). buf' ! (read + 1 + i) = xs ! i" and
      len: "length buf' = length buf" and
      rest: "rx_fifo (world s') = drop (min len (length xs)) xs" and
      rsr: "bsc_mem (world s') BSC_RSR = bsc_mem (world s) BSC_RSR AND NOT RSR_OE"
      by (auto simp add: clear_oe_twice split: if_splits)
    from read_loop_frame [OF rl] rd have first: "buf' ! read = x" by simp
    have run: "read_loop sim_env (Suc len) buf read s =
        (Inr (read + min (Suc len) (length (rx_fifo (world s))), buf'), s')"
      using Suc.prems(1) Cons rb rl by (simp add: sim_bsc_rd_fr sim_fr_rxfe)
    have "buf' ! (read + i) = rx_fifo (world s) ! i"
      if "i < min (Suc len) (length (rx_fifo (world s)))" for i
    proof (cases i)
      case 0
      with first Cons show ?thesis by simp
    next
      case (Suc j)
      with that Cons have "j < min len (length xs)" by simp
      with bytes Suc Cons show ?thesis by simp
    qed
    with run len rest rsr Cons show ?thesis by simp
  qed
qed


lemma sint_small: "k < 2 ^ 31 \<Longrightarrow> sint (word_of_nat k :: u32) = int k"
proof -
  assume k: "k < 2 ^ 31"
  have "sint (word_of_nat k :: u32) = sint (word_of_int (int k) :: u32)" by simp
  also have "\<dots> = signed_take_bit 31 (int k)" unfolding sint_sbintrunc' by simp
  also from k have "\<dots> = int k"
    by (simp add: signed_take_bit_int_eq_self)
  finally show ?thesis .
qed

lemma read_poll_is_loop:
  assumes "bsc_i2c_read_poll E (Some buf) (Suc len) s = (Inr (n, bf), s')"
  shows "\<exists>k buf'. read_loop E (Suc len) buf 0 s = (Inr (k, buf'), s') \<and> bf = Some buf' \<and>
           n = sint (word_of_nat k :: u32)"
  using assms
  by (auto simp add: bsc_i2c_read_poll_def testcancel_def then_do_def ret_def
      simp del: read_loop.simps split: if_splits prod.splits sum.splits)

text \<open>
  Claim C6.  An iteration of the loop of \<open>bsc_i2c_read_poll\<close> is a call of \<open>read_loop\<close>
  with a count left that finds the receive FIFO not empty.  In every such iteration, at any
  position \<open>read\<close> and in any environment, that reads the status register with the overrun
  bit set: the status register is read again, giving \<open>v'\<close>, and \<open>v'\<close> with bit 0 cleared
  and every other bit as read is stored back; then the data register is read, its low eight
  bits are stored in \<open>buf[read]\<close>, and the loop goes on with the next position.  If the loop
  returns, the byte is in the returned buffer at that position and is counted.  For the
  first iteration of a call of \<open>bsc_i2c_read_poll\<close> that returns, the buffer returned holds
  the byte at position 0 and the trace of the call starts with these accesses.  On the
  simulated peripheral with the overrun flag raised and bytes received,
  \<open>bsc_i2c_read_poll\<close> returns, delivers the first \<open>min len n\<close> of the \<open>n\<close> bytes of the
  FIFO in order, and leaves the status register as it was but for the overrun bit, which
  is clear.
\<close>

theorem overrun_cleared_and_byte_delivered:
  "(bsc s = Mapped b \<and> reg_read E b BSC_FR (world s) = (fr, w1) \<and> fr AND FR_RXFE = 0 \<and>
    \<not> cancel_pending E w1 \<and> reg_read E b BSC_RSR w1 = (v, w2) \<and> v AND RSR_OE \<noteq> 0 \<and>
    reg_read E b BSC_RSR w2 = (v', w3) \<and>
    reg_read E b BSC_DR (reg_write E b BSC_RSR (v' AND NOT RSR_OE) w3) = (d, w5) \<and>
    read < length buf \<longrightarrow>
      read_loop E (Suc len) buf read s =
        read_loop E len (buf[read := ucast (d AND 0xFF)]) (read + 1)
          (s\<lparr>world := w5,
             trace := trace s @
               [RegRead b BSC_FR fr, RegRead b BSC_RSR v, Stderr ''pi2cslave: Overflow!'',
                RegRead b BSC_RSR v', RegWrite b BSC_RSR (v' AND NOT RSR_OE),
                RegRead b BSC_DR d]\<rparr>) \<and>
      (\<forall>n. bit (v' AND NOT RSR_OE) n \<longleftrightarrow> bit v' n \<and> n \<noteq> 0) \<and>
      (\<forall>k buf' s'. read_loop E (Suc len) buf read s = (Inr (k, buf'), s') \<longrightarrow>
         read < k \<and> buf' ! read = ucast (d AND 0xFF)) \<and>
      (read = 0 \<longrightarrow>
         (\<forall>n bf s'. bsc_i2c_read_poll E (Some buf) (Suc len) s = (Inr (n, bf), s') \<longrightarrow>
            (\<exists>buf' t. bf = Some buf' \<and> buf' ! 0 = ucast (d AND 0xFF) \<and>
               trace s' = trace s @
                 [RegRead b BSC_FR fr, RegRead b BSC_RSR v, Stderr ''pi2cslave: Overflow!'',
                  RegRead b BSC_RSR v', RegWrite b BSC_RSR (v' AND NOT RSR_OE),
                  RegRead b BSC_DR d] @ t)))) \<and>
   (bsc u = Mapped BSC_BASE \<and> \<not> cancel_req (world u) \<and> rx_fifo (world u) = x # xs \<and>
    length (x # xs) \<le> FIFO_LEN \<and> bsc_mem (world u) BSC_RSR AND RSR_OE \<noteq> 0 \<and>
    0 < m \<and> min m (length (x # xs)) \<le> length bu \<longrightarrow>
      (\<exists>bf u'.
         bsc_i2c_read_poll sim_env (Some bu) m u =
           (Inr (int (min m (length (x # xs))), Some bf), u') \<and>
         take (min m (length (x # xs))) bf = take (min m (length (x # xs))) (x # xs) \<and>
         bsc_mem (world u') BSC_RSR = bsc_mem (world u) BSC_RSR AND NOT RSR_OE \<and>
         bsc_mem (world u') BSC_RSR AND RSR_OE = 0 \<and>
         rx_fifo (world u') = drop (min m (length (x # xs))) (x # xs)))"
proof (intro conjI impI; (elim conjE)?)
  let ?ev = "[RegRead b BSC_FR fr, RegRead b BSC_RSR v, Stderr ''pi2cslave: Overflow!'',
                RegRead b BSC_RSR v', RegWrite b BSC_RSR (v' AND NOT RSR_OE),
                RegRead b BSC_DR d]"
  let ?s5 = "s\<lparr>world := w5, trace := trace s @ ?ev\<rparr>"
  let ?b1 = "buf[read := ucast (d AND 0xFF)]"
  assume h: "bsc s = Mapped b" "reg_read E b BSC_FR (world s) = (fr, w1)"
    "fr AND FR_RXFE = 0" "\<not> cancel_pending E w1" "reg_read E b BSC_RSR w1 = (v, w2)"
    "v AND RSR_OE \<noteq> 0" "reg_read E b BSC_RSR w2 = (v', w3)"
    "reg_read E b BSC_DR (reg_write E b BSC_RSR (v' AND NOT RSR_OE) w3) = (d, w5)"
    "read < length buf"
  have step: "read_loop E (Suc len) buf read s = read_loop E len ?b1 (read + 1) ?s5"
    using h by (rule read_loop_overrun_step)
  have landed: "read < k \<and> buf' ! read = ucast (d AND 0xFF) \<and> (\<exists>t. trace s' = trace ?s5 @ t)"
    if "read_loop E (Suc len) buf read s = (Inr (k, buf'), s')" for k buf' s'
  proof -
    from that step have "read_loop E len ?b1 (read + 1) ?s5 = (Inr (k, buf'), s')" by simp
    from read_loop_frame [OF this] h(9) show ?thesis by simp
  qed
  {
    show "read_loop E (Suc len) buf read s = read_loop E len ?b1 (read + 1) ?s5" by (rule step)
  next
    show "\<forall>n. bit (v' AND NOT RSR_OE) n \<longleftrightarrow> bit v' n \<and> n \<noteq> 0"
      by (rule allI) (rule clear_oe_bits)
  next
    show "\<forall>k buf' s'. read_loop E (Suc len) buf read s = (Inr (k, buf'), s') \<longrightarrow>
         read < k \<and> buf' ! read = ucast (d AND 0xFF)"
      using landed by blast
  next
    assume r0: "read = 0"
    show "\<forall>n bf s'. bsc_i2c_read_poll E (Some buf) (Suc len) s = (Inr (n, bf), s') \<longrightarrow>
            (\<exists>buf' t. bf = Some buf' \<and> buf' ! 0 = ucast (d AND 0xFF) \<and>
               trace s' = trace s @ ?ev @ t)"
    proof (intro allI impI)
      fix n bf s'
      assume "bsc_i2c_read_poll E (Some buf) (Suc len) s = (Inr (n, bf), s')"
      from read_poll_is_loop [OF this] obtain k buf' where
        "read_loop E (Suc len) buf 0 s = (Inr (k, buf'), s')" "bf = Some buf'" by blast
      with landed [of k buf' s'] r0
      show "\<exists>buf' t. bf = Some buf' \<and> buf' ! 0 = ucast (d AND 0xFF) \<and>
               trace s' = trace s @ ?ev @ t"
        by auto
    qed
  }
next
  let ?k = "min m (length (x # xs))"
  assume h: "bsc u = Mapped BSC_BASE" "\<not> cancel_req (world u)" "rx_fifo (world u) = x # xs"
    "length (x # xs) \<le> FIFO_LEN" "bsc_mem (world u) BSC_RSR AND RSR_OE \<noteq> 0"
    "0 < m" "min m (length (x # xs)) \<le> length bu"
  from read_loop_sim_run [of u 0 m bu] h obtain bf u' where
    rl: "read_loop sim_env m bu 0 u = (Inr (?k, bf), u')" and
    bytes: "\<forall>i < ?k. bf ! i = (x # xs) ! i" and
    len: "length bf = length bu" and
    rest: "rx_fifo (world u') = drop ?k (x # xs)" and
    rsr: "bsc_mem (world u') BSC_RSR = bsc_mem (world u) BSC_RSR AND NOT RSR_OE"
    by (auto split: if_splits)
  from h(4) have "?k < 2 ^ 31" by simp
  then have n: "sint (word_of_nat ?k :: u32) = int ?k" by (rule sint_small)
  have run: "bsc_i2c_read_poll sim_env (Some bu) m u = (Inr (int ?k, Some bf), u')"
    using h(2,6) rl n
    by (simp add: bsc_i2c_read_poll_def testcancel_def then_do_def ret_def sim_env_def)
  have tk: "take ?k bf = take ?k (x # xs)"
    using h(7) len bytes by (intro nth_take_lemma) simp_all
  have "bsc_mem (world u') BSC_RSR AND RSR_OE = 0"
    unfolding rsr by (simp add: and.assoc)
  with run tk rsr rest
  show "\<exists>bf u'.
         bsc_i2c_read_poll sim_env (Some bu) m u = (Inr (int ?k, Some bf), u') \<and>
         take ?k bf = take ?k (x # xs) \<and>
         bsc_mem (world u') BSC_RSR = bsc_mem (world u) BSC_RSR AND NOT RSR_OE \<and>
         bsc_mem (world u') BSC_RSR AND RSR_OE = 0 \<and>
         rx_fifo (world u') = drop ?k (x # xs)"
    by blast
qed


lemma overrun_sample:
  "bsc_mem sim_overrun BSC_RSR = 3" "bsc_mem sim_overrun (Suc 0) = 3" "rx_fifo sim_overrun = [0xAA, 0xBB]"
  "\<not> cancel_req sim_overrun"
  by (simp_all add: sim_overrun_def sim0_def)

theorem overrun_cleared_and_byte_delivered_witness:
  "\<exists>bf u' t.
     bsc_i2c_read_poll sim_env (Some [0, 0, 0]) 3 (mapped sim_overrun) =
       (Inr (2, Some bf), u') \<and>
     bf ! 0 = 0xAA \<and> take 2 bf = [0xAA, 0xBB] \<and>
     trace u' =
       [RegRead BSC_BASE BSC_FR 0x1010, RegRead BSC_BASE BSC_RSR 3,
        Stderr ''pi2cslave: Overflow!'', RegRead BSC_BASE BSC_RSR 3,
        RegWrite BSC_BASE BSC_RSR 2, RegRead BSC_BASE BSC_DR 0xAA] @ t \<and>
     bsc_mem (world (mapped sim_overrun)) BSC_RSR = 3 \<and>
     bsc_mem (world u') BSC_RSR = 2 \<and> rx_fifo (world u') = []"
proof -
  let ?w4 = "sim_write BSC_BASE BSC_RSR (3 AND NOT RSR_OE) sim_overrun"
  note th = overrun_cleared_and_byte_delivered
    [where E = sim_env and s = "mapped sim_overrun" and b = BSC_BASE and fr = "0x1010"
       and ?w1.0 = sim_overrun and v = 3 and ?w2.0 = sim_overrun and v' = 3
       and ?w3.0 = sim_overrun and d = "0xAA" and ?w5.0 = "snd (sim_read BSC_BASE BSC_DR ?w4)"
       and read = 0 and buf = "[0, 0, 0]" and len = 2
       and u = "mapped sim_overrun" and x = "0xAA" and xs = "[0xBB]" and m = 3
       and bu = "[0, 0, 0]"]
  have pre1: "bsc (mapped sim_overrun) = Mapped BSC_BASE \<and>
      reg_read sim_env BSC_BASE BSC_FR (world (mapped sim_overrun)) = (0x1010, sim_overrun) \<and>
      (0x1010 :: u32) AND FR_RXFE = 0 \<and>
      \<not> cancel_pending sim_env sim_overrun \<and>
      reg_read sim_env BSC_BASE BSC_RSR sim_overrun = (3, sim_overrun) \<and>
      (3 :: u32) AND RSR_OE \<noteq> 0 \<and>
      reg_read sim_env BSC_BASE BSC_RSR sim_overrun = (3, sim_overrun) \<and>
      reg_read sim_env BSC_BASE BSC_DR
        (reg_write sim_env BSC_BASE BSC_RSR (3 AND NOT RSR_OE) sim_overrun) =
        (0xAA, snd (sim_read BSC_BASE BSC_DR ?w4)) \<and>
      0 < length [0 :: u8, 0, 0]"
    by (simp add: prod_eq_iff mapped_def sim_env_def sim_fr_def sim_read_def sim_write_def
        sim_overrun_def sim0_def)
  have pre2: "bsc (mapped sim_overrun) = Mapped BSC_BASE \<and>
      \<not> cancel_req (world (mapped sim_overrun)) \<and>
      rx_fifo (world (mapped sim_overrun)) = [0xAA, 0xBB] \<and>
      length [0xAA :: u8, 0xBB] \<le> FIFO_LEN \<and>
      bsc_mem (world (mapped sim_overrun)) BSC_RSR AND RSR_OE \<noteq> 0 \<and>
      0 < (3 :: nat) \<and> min 3 (length [0xAA :: u8, 0xBB]) \<le> length [0 :: u8, 0, 0]"
    by (simp add: mapped_def overrun_sample)
  have k: "min 3 (length [0xAA :: u8, 0xBB]) = 2" by simp
  from th [THEN conjunct2, THEN mp, OF pre2] obtain bf u' where
    raw: "bsc_i2c_read_poll sim_env (Some [0, 0, 0]) 3 (mapped sim_overrun) =
            (Inr (int (min 3 (length [0xAA :: u8, 0xBB])), Some bf), u')"
      "take (min 3 (length [0xAA :: u8, 0xBB])) bf =
         take (min 3 (length [0xAA :: u8, 0xBB])) [0xAA, 0xBB]"
      "bsc_mem (world u') BSC_RSR =
         bsc_mem (world (mapped sim_overrun)) BSC_RSR AND NOT RSR_OE"
      "rx_fifo (world u') = drop (min 3 (length [0xAA :: u8, 0xBB])) [0xAA, 0xBB]"
    by blast
  from raw(1) have run: "bsc_i2c_read_poll sim_env (Some [0, 0, 0]) 3 (mapped sim_overrun) =
       (Inr (2, Some bf), u')"
    unfolding k by simp
  from raw(2) have bytes: "take 2 bf = [0xAA, 0xBB]"
    unfolding k by simp
  from raw(3) have rsr: "bsc_mem (world u') BSC_RSR = 2"
    by (simp add: mapped_def overrun_sample)
  from raw(4) have rest: "rx_fifo (world u') = []"
    unfolding k by simp
  have before: "bsc_mem (world (mapped sim_overrun)) BSC_RSR = 3"
    by (simp add: mapped_def overrun_sample)
  have start: "trace (mapped sim_overrun) = []"
    by (simp add: mapped_def)
  from th [THEN conjunct1, THEN mp, OF pre1] have
    "\<forall>n bf s'. bsc_i2c_read_poll sim_env (Some [0, 0, 0]) (Suc 2) (mapped sim_overrun) =
         (Inr (n, bf), s') \<longrightarrow>
       (\<exists>buf' t. bf = Some buf' \<and> buf' ! 0 = ucast ((0xAA :: u32) AND 0xFF) \<and>
          trace s' = trace (mapped sim_overrun) @
            [RegRead BSC_BASE BSC_FR 0x1010, RegRead BSC_BASE BSC_RSR 3,
             Stderr ''pi2cslave: Overflow!'', RegRead BSC_BASE BSC_RSR 3,
             RegWrite BSC_BASE BSC_RSR (3 AND NOT RSR_OE), RegRead BSC_BASE BSC_DR 0xAA] @ t)"
    by blast
  moreover have "Suc 2 = 3" by simp
  ultimately obtain t where
    first: "bf ! 0 = ucast ((0xAA :: u32) AND 0xFF)" and
    tr: "trace u' = trace (mapped sim_overrun) @
            [RegRead BSC_BASE BSC_FR 0x1010, RegRead BSC_BASE BSC_RSR 3,
             Stderr ''pi2cslave: Overflow!'', RegRead BSC_BASE BSC_RSR 3,
             RegWrite BSC_BASE BSC_RSR (3 AND NOT RSR_OE), RegRead BSC_BASE BSC_DR 0xAA] @ t"
    using run by (metis option.inject)
  from first have first': "bf ! 0 = 0xAA" by simp
  from tr have tr': "trace u' =
       [RegRead BSC_BASE BSC_FR 0x1010, RegRead BSC_BASE BSC_RSR 3,
        Stderr ''pi2cslave: Overflow!'', RegRead BSC_BASE BSC_RSR 3,
        RegWrite BSC_BASE BSC_RSR 2, RegRead BSC_BASE BSC_DR 0xAA] @ t"
    unfolding start by simp
  from run first' bytes tr' before rsr rest show ?thesis by blast
qed


section \<open>Transmitting\<close>

lemma callbacks_append: "callbacks (t @ u) = callbacks t @ callbacks u"
  by (induction t rule: callbacks.induct) simp_all

lemma stores_append: "stores i (t @ u) = stores i t @ stores i u"
  by (induction i t rule: stores.induct) simp_all

lemma supplied_append: "supplied (cs @ ds) = supplied cs @ supplied ds"
  by (induction cs rule: supplied.induct) simp_all

lemma supplied_Cons: "supplied (c # cs) = supplied [c] @ supplied cs"
  by (cases c; cases "snd c") simp_all

lemma in_sequence_silent: "callbacks t = [] \<Longrightarrow> stores BSC_DR t = [] \<Longrightarrow> in_sequence cb a t"
  by (simp add: in_sequence_def)

lemma in_sequence_append:
  assumes "in_sequence cb a t" and "in_sequence cb (a + of_nat (length (callbacks t))) u"
  shows "in_sequence cb a (t @ u)"
proof -
  let ?n = "length (callbacks t)" and ?m = "length (callbacks u)"
  let ?f = "\<lambda>i. (a + of_nat i, cb (a + of_nat i))"
  have "[0..<?n + ?m] = [0..<?n] @ [?n..<?n + ?m]"
    by (rule upt_add_eq_append) simp
  also have "[?n..<?n + ?m] = map (\<lambda>i. i + ?n) [0..<?m]"
    by (simp only: map_add_upt add.commute [of ?n ?m])
  finally have "map ?f [0..<?n + ?m] = map ?f [0..<?n] @ map (\<lambda>i. ?f (i + ?n)) [0..<?m]"
    by (simp only: map_append map_map comp_def)
  also have "map (\<lambda>i. ?f (i + ?n)) [0..<?m] = callbacks u"
    using assms(2) unfolding in_sequence_def
    by (simp only: of_nat_add add.assoc add.commute [of "of_nat ?n"])
  also have "map ?f [0..<?n] = callbacks t"
    using assms(1) unfolding in_sequence_def by simp
  finally have c: "callbacks (t @ u) = map ?f [0..<length (callbacks (t @ u))]"
    by (simp only: callbacks_append length_append)
  have d: "stores BSC_DR (t @ u) = map ucast (supplied (callbacks (t @ u)))"
    using assms by (simp add: in_sequence_def stores_append supplied_append callbacks_append)
  from c d show ?thesis
    unfolding in_sequence_def by (rule conjI)
qed

lemma sint_succ: "(x :: u32) \<noteq> 0x7FFFFFFF \<Longrightarrow> sint (x + 1) = sint x + 1"
proof -
  assume ne: "x \<noteq> 0x7FFFFFFF"
  have "sint x \<noteq> sint (0x7FFFFFFF :: u32)"
    using ne signed_word_eqI [of x "0x7FFFFFFF"] by blast
  then have "sint x \<noteq> 2147483647" by simp
  moreover have "sint x < 2 ^ 31" "- (2 ^ 31) \<le> sint x"
    using sint_lt [of x] sint_ge [of x] by simp_all
  ultimately have "- (2 ^ 31) \<le> sint x + 1" "sint x + 1 < 2 ^ 31"
    by simp_all
  then have "signed_take_bit 31 (sint x + 1) = sint x + 1"
    by (rule signed_take_bit_int_eq_self)
  then show ?thesis
    by (simp add: sint_word_ariths)
qed

lemma write_byte_effect:
  assumes "write_byte E cb a off s = (out, s1)"
  shows "bsc s1 = bsc s \<and>
         (\<exists>t. trace s1 = trace s @ t \<and>
            (case out of
               Inl e \<Rightarrow>
                 (callbacks t = [] \<and> stores BSC_DR t = []) \<or>
                 (callbacks t = [(a, cb a)] \<and>
                  stores BSC_DR t = map ucast (supplied [(a, cb a)]))
             | Inr (go, a', off') \<Rightarrow>
                 callbacks t = [(a, cb a)] \<and>
                 stores BSC_DR t = map ucast (supplied [(a, cb a)]) \<and>
                 a' = a + 1 \<and> off' = off + of_nat (length (supplied [(a, cb a)])) \<and>
                 sint off' = sint off + int (length (supplied [(a, cb a)])) \<and>
                 go = (cb a \<noteq> None)))"
proof (cases "bsc s")
  case (Mapped b)
  with assms show ?thesis
    by (cases "cb a")
       (auto simp add: write_byte_def prim_defs Let_def sint_succ split: prod.splits if_splits)
qed (use assms in \<open>auto simp add: write_byte_def prim_defs split: if_splits\<close>)

lemma in_sequence_single:
  "callbacks t = [(a, cb a)] \<Longrightarrow> stores BSC_DR t = map ucast (supplied [(a, cb a)]) \<Longrightarrow>
   in_sequence cb a t"
  by (simp add: in_sequence_def)

lemma in_sequence_after_silent:
  "callbacks t = [] \<Longrightarrow> stores BSC_DR t = [] \<Longrightarrow> in_sequence cb a u \<Longrightarrow>
   in_sequence cb a (t @ u)"
  by (rule in_sequence_append) (simp_all add: in_sequence_silent)

lemma bsc_rd_effect:
  "bsc_rd E i s = (out, s1) \<Longrightarrow>
   bsc s1 = bsc s \<and> (\<exists>t. trace s1 = trace s @ t \<and> callbacks t = [] \<and> stores j t = [])"
  by (cases "bsc s") (auto simp add: prim_defs split: prod.splits)

lemma fill_tx_effect:
  assumes "fill_tx E cb a off s = Some y"
  shows "\<exists>t. trace (snd y) = trace s @ t \<and> bsc (snd y) = bsc s \<and> in_sequence cb a t \<and>
           (\<forall>a' off'. fst y = Inr (a', off') \<longrightarrow>
              a' = a + of_nat (length (callbacks t)) \<and>
              off' = off + of_nat (length (supplied (callbacks t))) \<and>
              sint off' = sint off + int (length (supplied (callbacks t))))"
    (is "?P cb a off s y")
proof (rule fill_tx.raw_induct [where P = "\<lambda>E. ?P", OF _ assms], goal_cases)
  case (1 f E cb a off s y)
  obtain o1 s1 where rd: "bsc_rd E BSC_FR s = (o1, s1)" by fastforce
  from bsc_rd_effect [OF rd, of BSC_DR] obtain t0 where
    t0: "bsc s1 = bsc s" "trace s1 = trace s @ t0" "callbacks t0 = []" "stores BSC_DR t0 = []"
    by blast
  show ?case
  proof (cases o1)
    case (Inl e)
    with 1(2) rd have "y = (Inl e, s1)" by simp
    with t0 show ?thesis by (auto simp add: in_sequence_silent)
  next
    case (Inr fr)
    show ?thesis
    proof (cases "fr AND FR_TXFF = 0")
      case False
      with 1(2) rd Inr have "y = (Inr (a, off), s1)" by simp
      with t0 show ?thesis by (auto simp add: in_sequence_silent)
    next
      case True
      obtain o2 s2 where wb: "write_byte E cb a off s1 = (o2, s2)" by fastforce
      from write_byte_effect [OF wb] obtain t1 where
        t1: "bsc s2 = bsc s1" "trace s2 = trace s1 @ t1" and
        eff: "case o2 of
                Inl e \<Rightarrow>
                  (callbacks t1 = [] \<and> stores BSC_DR t1 = []) \<or>
                  (callbacks t1 = [(a, cb a)] \<and>
                   stores BSC_DR t1 = map ucast (supplied [(a, cb a)]))
              | Inr (go, a', off') \<Rightarrow>
                  callbacks t1 = [(a, cb a)] \<and>
                  stores BSC_DR t1 = map ucast (supplied [(a, cb a)]) \<and>
                  a' = a + 1 \<and> off' = off + of_nat (length (supplied [(a, cb a)])) \<and>
                  sint off' = sint off + int (length (supplied [(a, cb a)])) \<and>
                  go = (cb a \<noteq> None)"
        by blast
      show ?thesis
      proof (cases o2)
        case (Inl e)
        with 1(2) rd \<open>o1 = Inr fr\<close> True wb have "y = (Inl e, s2)" by simp
        moreover from eff Inl have "in_sequence cb a t1"
          by (auto simp add: in_sequence_silent in_sequence_single)
        with t0 have "in_sequence cb a (t0 @ t1)"
          by (simp add: in_sequence_after_silent)
        ultimately show ?thesis using t0 t1 by auto
      next
        case (Inr r)
        obtain go a1 off1 where r: "r = (go, a1, off1)" by (cases r) auto
        from eff have
          "callbacks t1 = [(a, cb a)] \<and>
           stores BSC_DR t1 = map ucast (supplied [(a, cb a)]) \<and>
           a1 = a + 1 \<and> off1 = off + of_nat (length (supplied [(a, cb a)])) \<and>
           sint off1 = sint off + int (length (supplied [(a, cb a)])) \<and>
           go = (cb a \<noteq> None)"
          unfolding Inr r sum.case prod.case .
        then have
          c1: "callbacks t1 = [(a, cb a)]" and
          d1: "stores BSC_DR t1 = map ucast (supplied [(a, cb a)])" and
          a1: "a1 = a + 1" and
          off1: "off1 = off + of_nat (length (supplied [(a, cb a)]))" and
          soff1: "sint off1 = sint off + int (length (supplied [(a, cb a)]))" and
          go: "go = (cb a \<noteq> None)"
          by blast+
        from c1 d1 have s1: "in_sequence cb a t1" by (rule in_sequence_single)
        show ?thesis
        proof (cases go)
          case False
          with 1(2) rd \<open>o1 = Inr fr\<close> True wb Inr r have "y = (Inr (a1, off1), s2)" by simp
          moreover from t0 s1 have "in_sequence cb a (t0 @ t1)"
            by (simp add: in_sequence_after_silent)
          ultimately show ?thesis
            using t0 t1 c1 a1 off1 soff1 by (auto simp add: callbacks_append)
        next
          case True
          with 1(2) rd \<open>o1 = Inr fr\<close> \<open>fr AND FR_TXFF = 0\<close> wb Inr r
          have "f E cb a1 off1 s2 = Some y" by simp
          from 1(1) [OF this] obtain t2 where
            t2: "trace (snd y) = trace s2 @ t2" "bsc (snd y) = bsc s2" "in_sequence cb a1 t2" and
            fin: "\<forall>a' off'. fst y = Inr (a', off') \<longrightarrow>
                    a' = a1 + of_nat (length (callbacks t2)) \<and>
                    off' = off1 + of_nat (length (supplied (callbacks t2))) \<and>
                    sint off' = sint off1 + int (length (supplied (callbacks t2)))"
            by blast
          from s1 t2(3) a1 c1 have "in_sequence cb a (t1 @ t2)"
            by (rule_tac in_sequence_append) simp_all
          with t0 have "in_sequence cb a (t0 @ t1 @ t2)"
            by (simp add: in_sequence_after_silent)
          moreover have "trace (snd y) = trace s @ t0 @ t1 @ t2"
            using t0 t1 t2 by simp
          moreover have "bsc (snd y) = bsc s"
            using t0 t1 t2 by simp
          moreover have "\<forall>a' off'. fst y = Inr (a', off') \<longrightarrow>
              a' = a + of_nat (length (callbacks (t0 @ t1 @ t2))) \<and>
              off' = off + of_nat (length (supplied (callbacks (t0 @ t1 @ t2)))) \<and>
              sint off' = sint off + int (length (supplied (callbacks (t0 @ t1 @ t2))))"
            using fin a1 off1 soff1 c1 t0(3)
            by (simp add: callbacks_append supplied_Cons [of "(a, cb a)" "callbacks t2"]
                add.assoc)
          ultimately show ?thesis by blast
        qed
      qed
    qed
  qed
qed


lemma testcancel_effect: "testcancel E s = (out, s1) \<Longrightarrow> s1 = s"
  by (auto simp add: testcancel_def split: if_splits)

lemma toggle_txe_effect:
  "toggle_txe E s = (out, s1) \<Longrightarrow>
   bsc s1 = bsc s \<and> (\<exists>t. trace s1 = trace s @ t \<and> callbacks t = [] \<and> stores BSC_DR t = [])"
  by (cases "bsc s") (auto simp add: toggle_txe_def prim_defs split: prod.splits)

lemma usleep_effect:
  "usleep E n s = (out, s1) \<Longrightarrow>
   bsc s1 = bsc s \<and> (\<exists>t. trace s1 = trace s @ t \<and> callbacks t = [] \<and> stores j t = [])"
  by (auto simp add: usleep_def Let_def split: if_splits)

lemma reply_loop_effect:
  assumes "reply_loop E cb a off s = Some y"
  shows "\<exists>t. trace (snd y) = trace s @ t \<and> bsc (snd y) = bsc s \<and> in_sequence cb a t \<and>
           (\<forall>off'. fst y = Inr off' \<longrightarrow>
              off' = off + of_nat (length (supplied (callbacks t))) \<and>
              sint off' = sint off + int (length (supplied (callbacks t))))"
    (is "?P cb a off s y")
proof (rule reply_loop.raw_induct [where P = "\<lambda>E. ?P", OF _ assms], goal_cases)
  case (1 f E cb a off s y)
  obtain o1 s1 where rd: "bsc_rd E BSC_FR s = (o1, s1)" by fastforce
  from bsc_rd_effect [OF rd, of BSC_DR] obtain t0 where
    t0: "bsc s1 = bsc s" "trace s1 = trace s @ t0" "callbacks t0 = []" "stores BSC_DR t0 = []"
    by blast
  show ?case
  proof (cases o1)
    case (Inl e)
    with 1(2) rd have "y = (Inl e, s1)" by simp
    with t0 show ?thesis by (auto simp add: in_sequence_silent)
  next
    case (Inr fr)
    note o1 = this
    show ?thesis
    proof (cases "fr AND FR_RXFE \<noteq> 0")
      case False
      with 1(2) rd Inr have "y = (Inr off, s1)" by simp
      with t0 show ?thesis by (auto simp add: in_sequence_silent)
    next
      case True
      note empty = this
      obtain o2 s2 where tc: "testcancel E s1 = (o2, s2)" by fastforce
      from testcancel_effect [OF tc] have s2: "s2 = s1" .
      show ?thesis
      proof (cases o2)
        case (Inl e)
        with 1(2) rd o1 empty tc have "y = (Inl e, s2)" by simp
        with t0 s2 show ?thesis by (auto simp add: in_sequence_silent)
      next
        case (Inr u)
        note o2 = this
        from 1(2) rd o1 empty tc o2 obtain o3 s3 where
          ft: "fill_tx E cb a off s2 = Some (o3, s3)"
          by (auto split: option.splits)
        from fill_tx_effect [OF ft] obtain t1 where
          t1: "trace s3 = trace s2 @ t1" "bsc s3 = bsc s2" "in_sequence cb a t1" and
          fin1: "\<forall>a' off'. o3 = Inr (a', off') \<longrightarrow>
                   a' = a + of_nat (length (callbacks t1)) \<and>
                   off' = off + of_nat (length (supplied (callbacks t1))) \<and>
                   sint off' = sint off + int (length (supplied (callbacks t1)))"
          by auto
        show ?thesis
        proof (cases o3)
          case (Inl e)
          with 1(2) rd o1 empty tc o2 ft have "y = (Inl e, s3)" by simp
          moreover from t0 t1 have "in_sequence cb a (t0 @ t1)"
            by (simp add: in_sequence_after_silent)
          ultimately show ?thesis using t0 t1 s2 by auto
        next
          case (Inr r)
          obtain a1 off1 where r: "r = (a1, off1)" by (cases r) auto
          from fin1 [rule_format, of a1 off1] Inr r
          have a1: "a1 = a + of_nat (length (callbacks t1))"
            and off1: "off1 = off + of_nat (length (supplied (callbacks t1)))"
            and soff1: "sint off1 = sint off + int (length (supplied (callbacks t1)))"
            by blast+
          obtain o4 s4 where us: "usleep E WRITE_USLEEP_INTERVAL s3 = (o4, s4)" by fastforce
          from usleep_effect [OF us, of BSC_DR] obtain tu where
            tu: "bsc s4 = bsc s3" "trace s4 = trace s3 @ tu" "callbacks tu = []"
              "stores BSC_DR tu = []"
            by blast
          show ?thesis
          proof (cases o4)
            case (Inl e)
            with 1(2) rd o1 empty tc o2 ft \<open>o3 = Inr r\<close> r us have "y = (Inl e, s4)" by simp
            moreover from t1(3) tu have "in_sequence cb a (t1 @ tu)"
              by (rule_tac in_sequence_append) (simp_all add: in_sequence_silent)
            with t0 have "in_sequence cb a (t0 @ t1 @ tu)"
              by (simp add: in_sequence_after_silent)
            moreover have "trace s4 = trace s @ t0 @ t1 @ tu"
              using t0 t1 tu s2 by simp
            moreover have "bsc s4 = bsc s"
              using t0 t1 tu s2 by simp
            ultimately show ?thesis by auto
          next
            case (Inr u4)
            with 1(2) rd o1 empty tc o2 ft \<open>o3 = Inr r\<close> r us
            have "f E cb a1 off1 s4 = Some y" by simp
            from 1(1) [OF this] obtain t2 where
              t2: "trace (snd y) = trace s4 @ t2" "bsc (snd y) = bsc s4" "in_sequence cb a1 t2"
              and fin: "\<forall>off'. fst y = Inr off' \<longrightarrow>
                      off' = off1 + of_nat (length (supplied (callbacks t2))) \<and>
                      sint off' = sint off1 + int (length (supplied (callbacks t2)))"
              by blast
            have "in_sequence cb a1 (tu @ t2)"
              using t2(3) tu by (rule_tac in_sequence_after_silent) simp_all
            with t1(3) a1 have "in_sequence cb a (t1 @ tu @ t2)"
              by (rule_tac in_sequence_append) simp_all
            with t0 have "in_sequence cb a (t0 @ t1 @ tu @ t2)"
              by (simp add: in_sequence_after_silent)
            moreover have "trace (snd y) = trace s @ t0 @ t1 @ tu @ t2"
              using t0 t1 tu t2 s2 by simp
            moreover have "bsc (snd y) = bsc s"
              using t0 t1 tu t2 s2 by simp
            moreover have "\<forall>off'. fst y = Inr off' \<longrightarrow>
                off' = off + of_nat (length (supplied (callbacks (t0 @ t1 @ tu @ t2)))) \<and>
                sint off' = sint off + int (length (supplied (callbacks (t0 @ t1 @ tu @ t2))))"
              using fin off1 soff1 t0(3) tu(3)
              by (simp add: callbacks_append supplied_append add.assoc)
            ultimately show ?thesis by blast
          qed
        qed
      qed
    qed
  qed
qed

lemma flush_loop_effect:
  assumes "flush_loop E s = Some y"
  shows "\<exists>t. trace (snd y) = trace s @ t \<and> bsc (snd y) = bsc s \<and>
           callbacks t = [] \<and> stores BSC_DR t = []"
    (is "?P s y")
proof (rule flush_loop.raw_induct [where P = "\<lambda>E. ?P", OF _ assms], goal_cases)
  case (1 f E s y)
  obtain o1 s1 where rd: "bsc_rd E BSC_FR s = (o1, s1)" by fastforce
  from bsc_rd_effect [OF rd, of BSC_DR] obtain t0 where
    t0: "bsc s1 = bsc s" "trace s1 = trace s @ t0" "callbacks t0 = []" "stores BSC_DR t0 = []"
    by blast
  obtain o2 s2 where tg: "toggle_txe E s1 = (o2, s2)" by fastforce
  from toggle_txe_effect [OF tg] obtain t1 where
    t1: "bsc s2 = bsc s1" "trace s2 = trace s1 @ t1" "callbacks t1 = []" "stores BSC_DR t1 = []"
    by blast
  consider (stop) "snd y = s1" | (fault) "snd y = s2" | (loop) "f E s2 = Some y"
    using 1(2) by (cases o1; cases o2) (auto simp add: rd tg split: if_splits)
  then show ?case
  proof cases
    case stop
    with t0 show ?thesis by auto
  next
    case fault
    with t0 t1 show ?thesis by (auto simp add: callbacks_append stores_append)
  next
    case loop
    from 1(1) [OF this] obtain t2 where
      "trace (snd y) = trace s2 @ t2" "bsc (snd y) = bsc s2" "callbacks t2 = []"
      "stores BSC_DR t2 = []"
      by blast
    with t0 t1 have "trace (snd y) = trace s @ t0 @ t1 @ t2 \<and> bsc (snd y) = bsc s \<and>
        callbacks (t0 @ t1 @ t2) = [] \<and> stores BSC_DR (t0 @ t1 @ t2) = []"
      by (simp add: callbacks_append stores_append)
    then show ?thesis by blast
  qed
qed


lemma txflevel_less: "uint (txflevel fr) < 32"
proof -
  have m: "(0x7C0 :: u32) = push_bit 6 (mask 5)"
    by (simp add: mask_eq_exp_minus_1)
  have "txflevel fr = take_bit 5 (drop_bit 6 fr)"
    unfolding txflevel_def m
    by (rule bit_word_eqI) (auto simp add: bit_simps)
  then have "unat (txflevel fr) = take_bit 5 (unat (drop_bit 6 fr))"
    by (simp add: unsigned_take_bit_eq)
  also have "\<dots> < 2 ^ 5" by (rule take_bit_nat_less_exp)
  finally have "unat (txflevel fr) < 32" by simp
  moreover have "uint (txflevel fr) = int (unat (txflevel fr))" by (rule uint_nat)
  ultimately show ?thesis by linarith
qed

lemma write_finish_result:
  assumes "write_finish E offset s = Some (Inr r, s')"
  shows "\<exists>fr s2. bsc_rd E BSC_FR s = (Inr fr, s2) \<and>
           r = (if sint (offset - txflevel fr - 1) < 0 then 0
                else sint (offset - txflevel fr - 1))"
  using assms
  by (auto simp add: write_finish_def Let_def split: prod.splits sum.splits option.splits)

lemma write_finish_effect:
  assumes "write_finish E offset s = Some y"
  shows "\<exists>t. trace (snd y) = trace s @ t \<and> bsc (snd y) = bsc s \<and>
           callbacks t = [] \<and> stores BSC_DR t = []"
proof -
  obtain o1 s1 where rd: "bsc_rd E BSC_FR s = (o1, s1)" by fastforce
  from bsc_rd_effect [OF rd, of BSC_DR] obtain t0 where
    t0: "bsc s1 = bsc s" "trace s1 = trace s @ t0" "callbacks t0 = []" "stores BSC_DR t0 = []"
    by blast
  show ?thesis
  proof (cases o1)
    case (Inl e)
    with assms rd have "y = (Inl e, s1)" by (simp add: write_finish_def)
    with t0 show ?thesis by auto
  next
    case (Inr fr)
    with assms rd obtain o2 s2 where fl: "flush_loop E s1 = Some (o2, s2)"
      by (auto simp add: write_finish_def Let_def split: option.splits)
    from flush_loop_effect [OF fl] obtain t1 where
      t1: "trace s2 = trace s1 @ t1" "bsc s2 = bsc s1" "callbacks t1 = []" "stores BSC_DR t1 = []"
      by auto
    obtain o3 s3 where tg: "toggle_txe E s2 = (o3, s3)" by fastforce
    from toggle_txe_effect [OF tg] obtain t2 where
      t2: "bsc s3 = bsc s2" "trace s3 = trace s2 @ t2" "callbacks t2 = []" "stores BSC_DR t2 = []"
      by blast
    have "snd y = s2 \<or> snd y = s3"
      using assms by (cases o2; cases o3) (auto simp add: write_finish_def Let_def rd Inr fl tg)
    then show ?thesis
    proof
      assume "snd y = s2"
      with t0 t1 have "trace (snd y) = trace s @ t0 @ t1 \<and> bsc (snd y) = bsc s \<and>
          callbacks (t0 @ t1) = [] \<and> stores BSC_DR (t0 @ t1) = []"
        by (simp add: callbacks_append stores_append)
      then show ?thesis by blast
    next
      assume "snd y = s3"
      with t0 t1 t2 have "trace (snd y) = trace s @ t0 @ t1 @ t2 \<and> bsc (snd y) = bsc s \<and>
          callbacks (t0 @ t1 @ t2) = [] \<and> stores BSC_DR (t0 @ t1 @ t2) = []"
        by (simp add: callbacks_append stores_append)
      then show ?thesis by blast
    qed
  qed
qed

lemma in_sequence_nth:
  assumes "in_sequence cb a t" and "i < length (callbacks t)"
  shows "callbacks t ! i = (a + of_nat i, cb (a + of_nat i))"
proof -
  let ?f = "\<lambda>i. (a + of_nat i, cb (a + of_nat i))"
  from assms(1) have "callbacks t ! i = map ?f [0..<length (callbacks t)] ! i"
    unfolding in_sequence_def by (rule_tac arg_cong [where f = "\<lambda>xs. xs ! i"]) simp
  also from assms(2) have "\<dots> = ?f i" by simp
  finally show ?thesis .
qed

lemma unat_addr: "unat ((a :: u16) + of_nat i) = (unat a + i) mod 2 ^ 16"
  by (simp add: unat_word_ariths unat_of_nat mod_add_right_eq)

lemma bsc_i2c_write_phases:
  assumes "bsc_i2c_write E cb a s = Some (out, s')"
  shows "(\<exists>e. out = Inl e \<and> s' = s) \<or>
         (\<exists>e. out = Inl e \<and> reply_loop E cb a 0 s = Some (Inl e, s')) \<or>
         (\<exists>offset s1. reply_loop E cb a 0 s = Some (Inr offset, s1) \<and>
            write_finish E offset s1 = Some (out, s'))"
proof -
  obtain o0 s0 where tc: "testcancel E s = (o0, s0)" by fastforce
  from testcancel_effect [OF tc] have "s0 = s" .
  with assms tc show ?thesis
    by (cases o0) (auto simp add: bsc_i2c_write_def split: option.splits sum.splits)
qed

lemma scenario_run:
  "\<exists>s'. bsc_i2c_write sim_env cb3 0 (mapped sim_scenario) = Some (Inr 2, s')"
proof -
  have "map_option fst (bsc_i2c_write sim_env cb3 0 (mapped sim_scenario)) = Some (Inr 2)"
    by code_simp
  then show ?thesis by auto
qed

lemma scenario_fill:
  "\<exists>s1. reply_loop sim_env cb3 0 0 (mapped sim_scenario) = Some (Inr 3, s1)"
proof -
  have "map_option fst (reply_loop sim_env cb3 0 0 (mapped sim_scenario)) = Some (Inr 3)"
    by code_simp
  then show ?thesis by auto
qed

text \<open>
  Claim C4.  In a run of \<open>bsc_i2c_write\<close> that ends (it returns, is cancelled or faults),
  the \<open>i\<close>-th callback invocation, counted from 0, is passed the address
  \<open>(a + i) mod 2^16\<close> and answers as the callback does, whether or not it supplies a byte;
  the bytes stored to the data register are exactly the bytes supplied.  The count
  \<open>offset\<close> with which the reply loop ends is the number of invocations that supplied a
  byte (as a 32-bit value).
\<close>

theorem callback_address_advances_per_invocation:
  "(bsc_i2c_write E cb a s = Some (out, s') \<longrightarrow>
      (\<exists>t. trace s' = trace s @ t \<and>
         (\<forall>i < length (callbacks t).
            unat (fst (callbacks t ! i)) = (unat a + i) mod 2 ^ 16 \<and>
            snd (callbacks t ! i) = cb (fst (callbacks t ! i))) \<and>
         stores BSC_DR t = map ucast (supplied (callbacks t)))) \<and>
   (reply_loop E cb a 0 s = Some (Inr offset, s1) \<longrightarrow>
      (\<exists>t. trace s1 = trace s @ t \<and> offset = of_nat (length (supplied (callbacks t)))))"
proof -
  have seq: "\<exists>t. trace s' = trace s @ t \<and> in_sequence cb a t"
    if run: "bsc_i2c_write E cb a s = Some (out, s')"
  proof -
    from bsc_i2c_write_phases [OF run] consider
      (cancel) "s' = s"
      | (fault) e where "reply_loop E cb a 0 s = Some (Inl e, s')"
      | (finish) offset s1 where "reply_loop E cb a 0 s = Some (Inr offset, s1)"
          "write_finish E offset s1 = Some (out, s')"
      by blast
    then show ?thesis
    proof cases
      case cancel
      then have "trace s' = trace s @ [] \<and> in_sequence cb a []"
        by (simp add: in_sequence_silent)
      then show ?thesis by blast
    next
      case fault
      from reply_loop_effect [OF this] show ?thesis by auto
    next
      case finish
      from reply_loop_effect [OF finish(1)] obtain t1 where
        t1: "trace s1 = trace s @ t1" "in_sequence cb a t1" by auto
      from write_finish_effect [OF finish(2)] obtain t2 where
        t2: "trace s' = trace s1 @ t2" "callbacks t2 = []" "stores BSC_DR t2 = []" by auto
      from t1(2) t2(2,3) have "in_sequence cb a (t1 @ t2)"
        by (rule_tac in_sequence_append) (simp_all add: in_sequence_silent)
      with t1 t2 have "trace s' = trace s @ t1 @ t2 \<and> in_sequence cb a (t1 @ t2)" by simp
      then show ?thesis by blast
    qed
  qed
  have p1: "\<exists>t. trace s' = trace s @ t \<and>
         (\<forall>i < length (callbacks t).
            unat (fst (callbacks t ! i)) = (unat a + i) mod 2 ^ 16 \<and>
            snd (callbacks t ! i) = cb (fst (callbacks t ! i))) \<and>
         stores BSC_DR t = map ucast (supplied (callbacks t))"
    if run: "bsc_i2c_write E cb a s = Some (out, s')"
  proof -
    from seq [OF run] obtain t where t: "trace s' = trace s @ t" "in_sequence cb a t" by blast
    have "\<forall>i < length (callbacks t).
            unat (fst (callbacks t ! i)) = (unat a + i) mod 2 ^ 16 \<and>
            snd (callbacks t ! i) = cb (fst (callbacks t ! i))"
      using in_sequence_nth [OF t(2)] by (simp add: unat_addr)
    moreover from t(2) have "stores BSC_DR t = map ucast (supplied (callbacks t))"
      by (simp add: in_sequence_def)
    ultimately show ?thesis using t(1) by blast
  qed
  have p2: "\<exists>t. trace s1 = trace s @ t \<and> offset = of_nat (length (supplied (callbacks t)))"
    if "reply_loop E cb a 0 s = Some (Inr offset, s1)"
    using reply_loop_effect [OF that] by auto
  from p1 p2 show ?thesis by blast
qed

theorem callback_address_advances_per_invocation_witness:
  "\<exists>s' t s1 u.
     bsc_i2c_write sim_env cb3 0 (mapped sim_scenario) = Some (Inr 2, s') \<and>
     trace s' = trace (mapped sim_scenario) @ t \<and>
     (\<forall>i < length (callbacks t).
        unat (fst (callbacks t ! i)) = (unat (0 :: u16) + i) mod 2 ^ 16 \<and>
        snd (callbacks t ! i) = cb3 (fst (callbacks t ! i))) \<and>
     stores BSC_DR t = map ucast (supplied (callbacks t)) \<and>
     reply_loop sim_env cb3 0 0 (mapped sim_scenario) = Some (Inr 3, s1) \<and>
     trace s1 = trace (mapped sim_scenario) @ u \<and>
     (3 :: u32) = of_nat (length (supplied (callbacks u)))"
proof -
  from scenario_run obtain s' where
    run: "bsc_i2c_write sim_env cb3 0 (mapped sim_scenario) = Some (Inr 2, s')" ..
  from scenario_fill obtain s1 where
    fill: "reply_loop sim_env cb3 0 0 (mapped sim_scenario) = Some (Inr 3, s1)" ..
  from callback_address_advances_per_invocation
    [of sim_env cb3 0 "mapped sim_scenario" "Inr 2" s' 3 s1] run fill
  show ?thesis by blast
qed

lemma level_bits: "uint (txflevel fr) = uint fr div 64 mod 32"
proof -
  have m: "(0x7C0 :: u32) = push_bit 6 (mask 5)"
    by (simp add: mask_eq_exp_minus_1)
  have "txflevel fr = take_bit 5 (drop_bit 6 fr)"
    unfolding txflevel_def m
    by (rule bit_word_eqI) (auto simp add: bit_simps)
  then have "txflevel fr = fr div 64 mod 32"
    by (simp add: take_bit_eq_mod drop_bit_eq_div)
  then show ?thesis
    by (simp add: uint_div uint_mod)
qed

lemma keepsI:
  "(\<And>s out s'. I (world s) \<Longrightarrow> m s = (out, s') \<Longrightarrow> I (world s')) \<Longrightarrow> keeps I m"
  unfolding keeps_def by blast

lemma keepsD: "keeps I m \<Longrightarrow> I (world s) \<Longrightarrow> m s = (out, s') \<Longrightarrow> I (world s')"
  unfolding keeps_def by blast

lemma keeps_ret: "keeps I (ret v)"
  by (rule keepsI) (simp add: ret_def)

lemma keeps_emit: "keeps I (emit ev)"
  by (rule keepsI) (auto simp add: emit_def)

lemma keeps_then_do:
  assumes m: "keeps I m" and f: "\<And>v. keeps I (f v)"
  shows "keeps I (then_do m f)"
proof (rule keepsI)
  fix s out s' assume i: "I (world s)" and r: "then_do m f s = (out, s')"
  obtain o1 s1 where m1: "m s = (o1, s1)" by fastforce
  from m i m1 have i1: "I (world s1)" by (rule keepsD)
  show "I (world s')"
  proof (cases o1)
    case (Inl e)
    with r m1 have "s' = s1" by (simp add: then_do_def)
    with i1 show ?thesis by simp
  next
    case (Inr v)
    with r m1 have "f v s1 = (out, s')" by (simp add: then_do_def)
    with f [of v] i1 show ?thesis by (rule keepsD)
  qed
qed

lemma keeps_testcancel: "keeps I (testcancel E)"
  by (rule keepsI) (auto simp add: testcancel_def split: if_splits)

lemma keeps_bsc_rd:
  assumes "preserved E I"
  shows "keeps I (bsc_rd E i)"
proof (rule keepsI)
  fix s out s' assume i: "I (world s)" and r: "bsc_rd E i s = (out, s')"
  show "I (world s')"
  proof (cases "bsc s")
    case (Mapped b)
    from assms i have "I (snd (reg_read E b i (world s)))"
      unfolding preserved_def by blast
    with r Mapped show ?thesis
      by (auto simp add: bsc_rd_def load_def split: prod.splits)
  qed (use r i in \<open>auto simp add: bsc_rd_def load_def\<close>)
qed

lemma keeps_bsc_wr:
  assumes "preserved E I"
  shows "keeps I (bsc_wr E i v)"
proof (rule keepsI)
  fix s out s' assume i: "I (world s)" and r: "bsc_wr E i v s = (out, s')"
  show "I (world s')"
  proof (cases "bsc s")
    case (Mapped b)
    from assms i have "I (reg_write E b i v (world s))"
      unfolding preserved_def by blast
    with r Mapped show ?thesis
      by (auto simp add: bsc_wr_def store_def)
  qed (use r i in \<open>auto simp add: bsc_wr_def store_def\<close>)
qed

lemma keeps_usleep:
  assumes "preserved E I"
  shows "keeps I (usleep E n)"
proof (rule keepsI)
  fix s out s' assume i: "I (world s)" and r: "usleep E n s = (out, s')"
  from assms i have "I (sys_usleep E n (world s))"
    unfolding preserved_def by blast
  with r i show "I (world s')"
    by (auto simp add: usleep_def Let_def split: if_splits)
qed

lemma keeps_write_byte:
  assumes "preserved E I"
  shows "keeps I (write_byte E cb a off)"
proof -
  note p = keeps_bsc_rd [OF assms] keeps_bsc_wr [OF assms]
  have last: "keeps I (case cb a of
         Some byte \<Rightarrow>
           then_do (bsc_wr E BSC_DR (ucast byte)) (\<lambda>_ s.
             if off = 0x7FFFFFFF then (Inl SignedOverflow, s)
             else (Inr (True, a + 1, off + 1), s))
       | None \<Rightarrow> ret (False, a + 1, off))"
  proof (cases "cb a")
    case None
    then show ?thesis by (simp add: keeps_ret)
  next
    case (Some byte)
    have "keeps I (\<lambda>s. if off = 0x7FFFFFFF then (Inl SignedOverflow, s)
             else (Inr (True, a + 1, off + 1), s))"
      by (rule keepsI) (auto split: if_splits)
    with Some show ?thesis by (simp add: keeps_then_do p)
  qed
  have flag: "keeps I (if v AND RSR_UE \<noteq> 0 then
                then_do (emit (Stderr ''pi2cslave: Underrun!'')) (\<lambda>_.
                then_do (bsc_rd E BSC_RSR) (\<lambda>v'.
                bsc_wr E BSC_RSR (v' AND NOT RSR_UE)))
              else ret ())" for v
    by (simp add: keeps_then_do keeps_emit keeps_ret p)
  show ?thesis
    unfolding write_byte_def
    by (rule keeps_then_do keeps_testcancel p flag keeps_emit last)+
qed


lemma fill_tx_keeps:
  assumes "fill_tx E cb a off s = Some y"
  shows "preserved E I \<longrightarrow> I (world s) \<longrightarrow> I (world (snd y))"
    (is "?P E cb a off s y")
proof (rule fill_tx.raw_induct [where P = "\<lambda>E. ?P E", OF _ assms], goal_cases)
  case (1 f E cb a off s y)
  show ?case
  proof (intro impI)
    assume p: "preserved E I" and i: "I (world s)"
    obtain o1 s1 where rd: "bsc_rd E BSC_FR s = (o1, s1)" by fastforce
    from keeps_bsc_rd [OF p] i rd have i1: "I (world s1)" by (rule keepsD)
    obtain o2 s2 where wb: "write_byte E cb a off s1 = (o2, s2)" by fastforce
    from keeps_write_byte [OF p] i1 wb have i2: "I (world s2)" by (rule keepsD)
    have "snd y = s1 \<or> snd y = s2 \<or>
          (\<exists>a' off'. f E cb a' off' s2 = Some y)"
    proof (cases o1)
      case (Inl e)
      with 1(2) rd show ?thesis by auto
    next
      case fr: (Inr fr)
      show ?thesis
      proof (cases o2)
        case (Inl e)
        with 1(2) rd wb fr show ?thesis by (auto split: if_splits)
      next
        case (Inr r)
        then obtain go a' off' where "o2 = Inr (go, a', off')" by (cases r) auto
        with 1(2) rd wb fr show ?thesis by (auto split: if_splits)
      qed
    qed
    with i1 i2 1(1) p show "I (world (snd y))" by blast
  qed
qed

lemma reply_loop_keeps:
  assumes "reply_loop E cb a off s = Some y"
  shows "preserved E I \<longrightarrow> I (world s) \<longrightarrow> I (world (snd y))"
    (is "?P E cb a off s y")
proof (rule reply_loop.raw_induct [where P = "\<lambda>E. ?P E", OF _ assms], goal_cases)
  case (1 f E cb a off s y)
  show ?case
  proof (intro impI)
    assume p: "preserved E I" and i: "I (world s)"
    obtain o1 s1 where rd: "bsc_rd E BSC_FR s = (o1, s1)" by fastforce
    from keeps_bsc_rd [OF p] i rd have i1: "I (world s1)" by (rule keepsD)
    show "I (world (snd y))"
    proof (cases "\<exists>fr. o1 = Inr fr \<and> fr AND FR_RXFE \<noteq> 0 \<and> \<not> cancel_pending E (world s1)")
      case False
      with 1(2) rd have "snd y = s1"
        by (cases o1) (auto simp add: testcancel_def split: if_splits)
      with i1 show ?thesis by simp
    next
      case True
      then obtain fr where fr: "o1 = Inr fr" "fr AND FR_RXFE \<noteq> 0"
        "\<not> cancel_pending E (world s1)" by blast
      with 1(2) rd obtain y3 where ft: "fill_tx E cb a off s1 = Some y3"
        by (auto simp add: testcancel_def split: option.splits)
      from fill_tx_keeps [OF ft] p i1 have i3: "I (world (snd y3))" by blast
      obtain o4 s4 where us: "usleep E WRITE_USLEEP_INTERVAL (snd y3) = (o4, s4)" by fastforce
      from keeps_usleep [OF p] i3 us have i4: "I (world s4)" by (rule keepsD)
      have "snd y = snd y3 \<or> snd y = s4 \<or> (\<exists>a' off'. f E cb a' off' s4 = Some y)"
        using 1(2) rd fr ft us
        by (cases y3) (auto simp add: testcancel_def split: sum.splits)
      then show ?thesis
      proof (elim disjE exE)
        fix a' off' assume "f E cb a' off' s4 = Some y"
        from 1(1) [OF this] p i4 show ?thesis by simp
      qed (use i3 i4 in simp_all)
    qed
  qed
qed

lemma sim_fifo_bounded: "preserved sim_env (\<lambda>d. length (tx_fifo d) \<le> FIFO_LEN)"
  unfolding preserved_def
proof (intro conjI allI impI)
  fix b i and w :: sim assume "length (tx_fifo w) \<le> FIFO_LEN"
  then show "length (tx_fifo (snd (reg_read sim_env b i w))) \<le> FIFO_LEN"
    by (simp add: sim_env_def sim_read_def split: list.splits)
next
  fix b i v and w :: sim assume "length (tx_fifo w) \<le> FIFO_LEN"
  then show "length (tx_fifo (reg_write sim_env b i v w)) \<le> FIFO_LEN"
    by (auto simp add: sim_env_def sim_write_def Let_def split: list.splits)
next
  fix n and w :: sim assume "length (tx_fifo w) \<le> FIFO_LEN"
  then show "length (tx_fifo (sys_usleep sim_env n w)) \<le> FIFO_LEN"
    by (auto simp add: sim_env_def sim_usleep_def sim_stimulus_def
        split: list.splits stimulus.splits option.splits)
qed

lemma flag_bits_low:
  "\<not> bit (4 :: int) (6 + n)" "\<not> bit (16 :: int) (6 + n)" "\<not> bit (2 :: int) (6 + n)"
proof -
  have e: "(4 :: int) = 2 ^ 2" "(16 :: int) = 2 ^ 4" by simp_all
  show "\<not> bit (4 :: int) (6 + n)" "\<not> bit (16 :: int) (6 + n)"
    unfolding e bit_exp_iff by simp_all
  show "\<not> bit (2 :: int) (6 + n)" by (simp add: bit_2_iff)
qed

lemma sim_fr_level:
  assumes "length (tx_fifo d) \<le> FIFO_LEN"
  shows "uint (sim_fr d) div 64 mod 32 = int (length (tx_fifo d))"
proof -
  have m: "(0x1F :: u32) = mask 5" by (simp add: mask_eq_exp_minus_1)
  have "take_bit 5 (drop_bit 6 (sim_fr d)) = (take_bit 5 (word_of_nat (length (tx_fifo d))) :: u32)"
    unfolding sim_fr_def m
    by (rule bit_word_eqI) (auto simp add: bit_simps flag_bits_low)
  moreover have "unat (take_bit 5 (word_of_nat (length (tx_fifo d))) :: u32) = length (tx_fifo d)"
    using assms by (simp add: take_bit_eq_mod unat_mod unat_of_nat)
  ultimately have "uint (take_bit 5 (drop_bit 6 (sim_fr d))) = int (length (tx_fifo d))"
    by (simp add: uint_nat)
  moreover have "take_bit 5 (drop_bit 6 (sim_fr d)) = sim_fr d div 64 mod 32"
    by (simp add: take_bit_eq_mod drop_bit_eq_div)
  ultimately show ?thesis
    by (simp add: uint_div uint_mod)
qed

lemma sint_count:
  assumes "sint (x :: u32) = int q"
  shows "sint (x - l - 1) = int q - uint l - 1 \<or> 32 \<le> uint l"
proof (cases "uint l < 32")
  case True
  have "x = word_of_int (sint x)" by simp
  with assms have "x = word_of_int (int q)" by simp
  then have e: "x - l - 1 = word_of_int (int q - uint l - 1)"
    by simp
  have v: "sint (x - l - 1) = signed_take_bit 31 (int q - uint l - 1)"
    unfolding e sint_sbintrunc' by simp
  have "int q < 2 ^ 31" using sint_lt [of x] assms by simp
  then have "int q - uint l - 1 < 2 ^ 31" using uint_ge_0 [of l] by linarith
  moreover have "- (2 ^ 31) \<le> int q - uint l - 1" using True by simp
  ultimately show ?thesis
    by (simp add: v signed_take_bit_int_eq_self)
qed simp

lemma write_poll_general:
  assumes run: "bsc_i2c_write E cb a s = Some (Inr r, s')"
  shows "\<exists>offset s1 t b fr w.
         reply_loop E cb a 0 s = Some (Inr offset, s1) \<and> trace s1 = trace s @ t \<and>
         bsc s1 = bsc s \<and>
         bsc s1 = Mapped b \<and> reg_read E b BSC_FR (world s1) = (fr, w) \<and>
         length (stores BSC_DR t) = length (supplied (callbacks t)) \<and>
         r = max 0 (int (length (supplied (callbacks t))) - uint fr div 64 mod 32 - 1) \<and>
         0 \<le> r \<and> r \<le> int (length (supplied (callbacks t)))"
proof -
  from bsc_i2c_write_phases [OF run] obtain offset s1 where
    rl: "reply_loop E cb a 0 s = Some (Inr offset, s1)" and
    wf: "write_finish E offset s1 = Some (Inr r, s')"
    by auto
  from reply_loop_effect [OF rl] obtain t where
    t: "trace s1 = trace s @ t" "in_sequence cb a t" "bsc s1 = bsc s" and
    off: "sint offset = int (length (supplied (callbacks t)))"
    by auto
  from write_finish_result [OF wf] obtain fr s2 where
    rd: "bsc_rd E BSC_FR s1 = (Inr fr, s2)" and
    r: "r = (if sint (offset - txflevel fr - 1) < 0 then 0 else sint (offset - txflevel fr - 1))"
    by blast
  from rd obtain b where b: "bsc s1 = Mapped b"
    by (cases "bsc s1") (auto simp add: bsc_rd_def load_def)
  with rd have fr: "reg_read E b BSC_FR (world s1) = (fr, world s2)"
    by (auto simp add: bsc_rd_def load_def split: prod.splits)
  let ?q = "length (supplied (callbacks t))"
  from sint_count [OF off, of "txflevel fr"] txflevel_less [of fr]
  have "sint (offset - txflevel fr - 1) = int ?q - uint (txflevel fr) - 1" by simp
  with r have r': "r = max 0 (int ?q - uint fr div 64 mod 32 - 1)"
    by (simp add: level_bits max_def)
  have lv: "0 \<le> uint fr div 64 mod 32" by simp
  from t(2) have "length (stores BSC_DR t) = ?q"
    by (simp add: in_sequence_def)
  moreover from r' have "0 \<le> r" by simp
  moreover from r' lv have "r \<le> int ?q" by linarith
  ultimately show ?thesis using rl t(1,3) b fr r' by blast
qed

text \<open>
  Claim C1.  When \<open>bsc_i2c_write\<close> returns \<open>r\<close>, the reply loop has ended in a state
  \<open>s1\<close> after a trace \<open>t\<close>.  With \<open>q\<close> the number of bytes the callback supplied in
  \<open>t\<close>, which is the number of stores to the data register, and the level bits 6 to 10 of
  the flag register as the peripheral gives it in \<open>s1\<close>, before the flush empties the
  FIFO: \<open>r = max 0 (q - level - 1)\<close> and \<open>0 \<le> r \<le> q\<close>.  On the simulated peripheral
  the level is the length of the transmit FIFO in \<open>s1\<close>.
\<close>

theorem write_poll_return_value:
  "(bsc_i2c_write E cb a s = Some (Inr r, s') \<longrightarrow>
      (\<exists>offset s1 t b fr w.
         reply_loop E cb a 0 s = Some (Inr offset, s1) \<and> trace s1 = trace s @ t \<and>
         bsc s1 = Mapped b \<and> reg_read E b BSC_FR (world s1) = (fr, w) \<and>
         length (stores BSC_DR t) = length (supplied (callbacks t)) \<and>
         r = max 0 (int (length (supplied (callbacks t))) - uint fr div 64 mod 32 - 1) \<and>
         0 \<le> r \<and> r \<le> int (length (supplied (callbacks t))))) \<and>
   (bsc_i2c_write sim_env cb a u = Some (Inr r', u') \<and> bsc u = Mapped BSC_BASE \<and>
    length (tx_fifo (world u)) \<le> FIFO_LEN \<longrightarrow>
      (\<exists>offset u1 t.
         reply_loop sim_env cb a 0 u = Some (Inr offset, u1) \<and> trace u1 = trace u @ t \<and>
         length (stores BSC_DR t) = length (supplied (callbacks t)) \<and>
         r' = max 0 (int (length (supplied (callbacks t))) -
                     int (length (tx_fifo (world u1))) - 1)))"
proof -
  have "\<exists>offset u1 t.
         reply_loop sim_env cb a 0 u = Some (Inr offset, u1) \<and> trace u1 = trace u @ t \<and>
         length (stores BSC_DR t) = length (supplied (callbacks t)) \<and>
         r' = max 0 (int (length (supplied (callbacks t))) -
                     int (length (tx_fifo (world u1))) - 1)"
    if run: "bsc_i2c_write sim_env cb a u = Some (Inr r', u')"
      and base: "bsc u = Mapped BSC_BASE"
      and len: "length (tx_fifo (world u)) \<le> FIFO_LEN"
  proof -
    from write_poll_general [OF run] obtain offset u1 t b fr w where
      rl: "reply_loop sim_env cb a 0 u = Some (Inr offset, u1)" and
      t: "trace u1 = trace u @ t" and
      b: "bsc u1 = bsc u" "bsc u1 = Mapped b" and
      fr: "reg_read sim_env b BSC_FR (world u1) = (fr, w)" and
      q: "length (stores BSC_DR t) = length (supplied (callbacks t))" and
      r: "r' = max 0 (int (length (supplied (callbacks t))) - uint fr div 64 mod 32 - 1)"
      by blast
    from reply_loop_keeps [OF rl, of "\<lambda>d. length (tx_fifo d) \<le> FIFO_LEN"] sim_fifo_bounded len
    have l1: "length (tx_fifo (world u1)) \<le> FIFO_LEN" by simp
    from b base have "b = BSC_BASE" by simp
    with fr have "fr = sim_fr (world u1)"
      by (auto simp add: sim_env_def sim_read_def)
    with r sim_fr_level [OF l1]
    have "r' = max 0 (int (length (supplied (callbacks t))) -
                     int (length (tx_fifo (world u1))) - 1)" by simp
    with rl t q show ?thesis by blast
  qed
  moreover from write_poll_general [of E cb a s r s']
  have "bsc_i2c_write E cb a s = Some (Inr r, s') \<longrightarrow>
      (\<exists>offset s1 t b fr w.
         reply_loop E cb a 0 s = Some (Inr offset, s1) \<and> trace s1 = trace s @ t \<and>
         bsc s1 = Mapped b \<and> reg_read E b BSC_FR (world s1) = (fr, w) \<and>
         length (stores BSC_DR t) = length (supplied (callbacks t)) \<and>
         r = max 0 (int (length (supplied (callbacks t))) - uint fr div 64 mod 32 - 1) \<and>
         0 \<le> r \<and> r \<le> int (length (supplied (callbacks t))))"
    by blast
  ultimately show ?thesis by blast
qed

lemma scenario5_fill:
  "map_option (\<lambda>(r, s). (r, length (supplied (callbacks (trace s))), length (tx_fifo (world s))))
     (reply_loop sim_env cb5 0 0 (mapped sim_scenario)) = Some (Inr 5, 5, 2)"
  by code_simp

lemma scenario5_run:
  "map_option fst (bsc_i2c_write sim_env cb5 0 (mapped sim_scenario)) = Some (Inr 2)"
  by code_simp

theorem write_poll_return_value_witness:
  "\<exists>u' offset u1 t b fr w.
     bsc_i2c_write sim_env cb5 0 (mapped sim_scenario) = Some (Inr 2, u') \<and>
     reply_loop sim_env cb5 0 0 (mapped sim_scenario) = Some (Inr offset, u1) \<and>
     trace u1 = trace (mapped sim_scenario) @ t \<and>
     length (stores BSC_DR t) = 5 \<and> length (supplied (callbacks t)) = 5 \<and>
     bsc u1 = Mapped b \<and> reg_read sim_env b BSC_FR (world u1) = (fr, w) \<and>
     uint fr div 64 mod 32 = 2 \<and> length (tx_fifo (world u1)) = 2 \<and>
     (2 :: int) = max 0 (int (length (supplied (callbacks t))) - uint fr div 64 mod 32 - 1) \<and>
     (2 :: int) = max 0 (int (length (supplied (callbacks t))) -
                         int (length (tx_fifo (world u1))) - 1)"
proof -
  from scenario5_run obtain u' where
    run: "bsc_i2c_write sim_env cb5 0 (mapped sim_scenario) = Some (Inr 2, u')"
    by auto
  from scenario5_fill obtain u1 where
    rl: "reply_loop sim_env cb5 0 0 (mapped sim_scenario) = Some (Inr 5, u1)" and
    q: "length (supplied (callbacks (trace u1))) = 5" and
    lv: "length (tx_fifo (world u1)) = 2"
    by auto
  have pre: "bsc (mapped sim_scenario) = Mapped BSC_BASE"
    "length (tx_fifo (world (mapped sim_scenario))) \<le> FIFO_LEN"
    "trace (mapped sim_scenario) = []"
    by (simp_all add: mapped_def sim_scenario_def sim0_def)
  note ret = write_poll_return_value
    [where E = sim_env and cb = cb5 and a = 0 and s = "mapped sim_scenario" and r = 2
       and s' = u' and u = "mapped sim_scenario" and r' = 2 and u' = u']
  from ret [THEN conjunct1, THEN mp, OF run] obtain offset s1 t b fr w where
    a: "reply_loop sim_env cb5 0 0 (mapped sim_scenario) = Some (Inr offset, s1)"
      "trace s1 = trace (mapped sim_scenario) @ t" "bsc s1 = Mapped b"
      "reg_read sim_env b BSC_FR (world s1) = (fr, w)"
      "length (stores BSC_DR t) = length (supplied (callbacks t))"
      "2 = max 0 (int (length (supplied (callbacks t))) - uint fr div 64 mod 32 - 1)"
    by blast
  from a(1) rl have s1: "s1 = u1" by simp
  with a(2) pre(3) have t: "t = trace u1" by simp
  from a(6) [symmetric] q t have fr: "uint fr div 64 mod 32 = 2"
    by (simp add: max_def split: if_splits)
  from ret [THEN conjunct2, THEN mp, OF conjI [OF run conjI [OF pre(1) pre(2)]]]
  obtain offset' u1' t' where
    b: "reply_loop sim_env cb5 0 0 (mapped sim_scenario) = Some (Inr offset', u1')"
      "trace u1' = trace (mapped sim_scenario) @ t'"
      "2 = max 0 (int (length (supplied (callbacks t'))) - int (length (tx_fifo (world u1'))) - 1)"
    by blast
  from b(1) rl have "u1' = u1" by simp
  with b(2) pre(3) t have "t' = t" by simp
  note sim = b(3) [unfolded \<open>u1' = u1\<close> \<open>t' = t\<close>]
  have "bsc_i2c_write sim_env cb5 0 (mapped sim_scenario) = Some (Inr 2, u') \<and>
     reply_loop sim_env cb5 0 0 (mapped sim_scenario) = Some (Inr 5, u1) \<and>
     trace u1 = trace (mapped sim_scenario) @ t \<and>
     length (stores BSC_DR t) = 5 \<and> length (supplied (callbacks t)) = 5 \<and>
     bsc u1 = Mapped b \<and> reg_read sim_env b BSC_FR (world u1) = (fr, w) \<and>
     uint fr div 64 mod 32 = 2 \<and> length (tx_fifo (world u1)) = 2 \<and>
     (2 :: int) = max 0 (int (length (supplied (callbacks t))) - uint fr div 64 mod 32 - 1) \<and>
     (2 :: int) = max 0 (int (length (supplied (callbacks t))) -
                         int (length (tx_fifo (world u1))) - 1)"
    using run rl a(2-5) s1 t q lv fr pre(3) sim [symmetric] a(6) [symmetric] by simp
  then show ?thesis by blast
qed


section \<open>Flushing the transmit FIFO of the simulated peripheral\<close>










end
